theory Spec2Isabelle
  imports Complex_Main "HOL-Library.AList"
begin

section \<open>JavaScript values used by the orchestration layer\<close>

text \<open>
  The orchestrator of \<^verbatim>\<open>src/orchestration.ts\<close> computes with JavaScript numbers.
  Counters and millisecond timestamps are integers and are modelled as \<open>int\<close> or \<open>nat\<close>.
  Rates and scores are modelled by \<open>jsnum\<close>: a rational (rounding is not modelled),
  or one of the three special values of IEEE-754 arithmetic. Division by a zero
  \<open>Num 0\<close> is division by \<open>+0\<close> (the only zero divisor in the source is a counter
  that starts at \<open>0\<close> and is only incremented).
\<close>

datatype jsnum = Num rat | NaN | PosInf | NegInf

fun js_mul :: "jsnum \<Rightarrow> jsnum \<Rightarrow> jsnum" where
  "js_mul (Num a) (Num b) = Num (a * b)"
| "js_mul NaN _ = NaN"
| "js_mul _ NaN = NaN"
| "js_mul PosInf (Num b) = (if b = 0 then NaN else if 0 < b then PosInf else NegInf)"
| "js_mul NegInf (Num b) = (if b = 0 then NaN else if 0 < b then NegInf else PosInf)"
| "js_mul (Num a) PosInf = (if a = 0 then NaN else if 0 < a then PosInf else NegInf)"
| "js_mul (Num a) NegInf = (if a = 0 then NaN else if 0 < a then NegInf else PosInf)"
| "js_mul PosInf PosInf = PosInf"
| "js_mul PosInf NegInf = NegInf"
| "js_mul NegInf PosInf = NegInf"
| "js_mul NegInf NegInf = PosInf"

fun js_add :: "jsnum \<Rightarrow> jsnum \<Rightarrow> jsnum" where
  "js_add (Num a) (Num b) = Num (a + b)"
| "js_add NaN _ = NaN"
| "js_add _ NaN = NaN"
| "js_add PosInf NegInf = NaN"
| "js_add NegInf PosInf = NaN"
| "js_add PosInf _ = PosInf"
| "js_add NegInf _ = NegInf"
| "js_add (Num a) PosInf = PosInf"
| "js_add (Num a) NegInf = NegInf"

fun js_div :: "jsnum \<Rightarrow> jsnum \<Rightarrow> jsnum" where
  "js_div (Num a) (Num b) =
     (if b = 0 then (if a = 0 then NaN else if 0 < a then PosInf else NegInf)
      else Num (a / b))"
| "js_div NaN _ = NaN"
| "js_div _ NaN = NaN"
| "js_div PosInf (Num b) = (if 0 \<le> b then PosInf else NegInf)"
| "js_div NegInf (Num b) = (if 0 \<le> b then NegInf else PosInf)"
| "js_div (Num a) PosInf = Num 0"
| "js_div (Num a) NegInf = Num 0"
| "js_div PosInf PosInf = NaN"
| "js_div PosInf NegInf = NaN"
| "js_div NegInf PosInf = NaN"
| "js_div NegInf NegInf = NaN"

text \<open>\<open>x < y\<close> and \<open>x > y\<close> on numbers: false as soon as one side is \<open>NaN\<close>.\<close>

fun js_lt :: "jsnum \<Rightarrow> jsnum \<Rightarrow> bool" where
  "js_lt (Num a) (Num b) = (a < b)"
| "js_lt NaN _ = False"
| "js_lt _ NaN = False"
| "js_lt NegInf NegInf = False"
| "js_lt NegInf _ = True"
| "js_lt _ PosInf = True"
| "js_lt PosInf _ = False"
| "js_lt (Num a) NegInf = False"

definition js_gt :: "jsnum \<Rightarrow> jsnum \<Rightarrow> bool" where
  "js_gt x y = js_lt y x"

text \<open>Membership in the closed interval \<open>[0,1]\<close>, the range of a rate.\<close>

fun in_unit_range :: "jsnum \<Rightarrow> bool" where
  "in_unit_range (Num a) = (0 \<le> a \<and> a \<le> 1)"
| "in_unit_range _ = False"

text \<open>
  Truthiness of an optional string (\<^verbatim>\<open>options.parentSessionId ? ... : ...\<close>):
  \<^verbatim>\<open>undefined\<close> and the empty string are falsy.
\<close>

fun truthy :: "string option \<Rightarrow> bool" where
  "truthy None = False"
| "truthy (Some s) = (s \<noteq> [])"

text \<open>\<^verbatim>\<open>n || d\<close> on an integer-valued number: \<open>0\<close> is falsy.\<close>

definition num_or :: "'a::zero \<Rightarrow> 'a \<Rightarrow> 'a" where
  "num_or n d = (if n = 0 then d else n)"

section \<open>Data model (\<^verbatim>\<open>src/types.ts\<close>)\<close>

datatype role = orchestrator_role | specialist | coordinator | validator

text \<open>
  The conflict types are the four strings of the union that \<^verbatim>\<open>resolveConflict\<close> declares
  for its parameter and that \<^verbatim>\<open>ConflictResolutionSchema\<close> admits.
\<close>

datatype conflictType =
  memory_conflict | session_conflict | agent_conflict | pattern_conflict

datatype severity = low | medium | high | critical

datatype conflictStatus = pending | in_progress | resolved | escalated

datatype patternType = workflow | resolution | optimization | prediction

text \<open>Timestamps are milliseconds since the epoch; \<open>s_ttl\<close> is in seconds.\<close>

record 'v SessionContext =
  s_id :: string
  s_parentSessionId :: "string option"
  s_hierarchyLevel :: nat
  s_agentRole :: role
  s_state :: "string \<rightharpoonup> 'v"
  s_createdAt :: int
  s_lastAccess :: int
  s_ttl :: int
  s_isActive :: bool
  s_childSessions :: "string list"
  s_memoryContext :: "string list"

record AgentPerformance =
  tasksCompleted :: int
  successRate :: jsnum
  averageResponseTime :: jsnum
  conflictResolutions :: int
  patternContributions :: int

record 'v AgentContext =
  a_id :: string
  a_role :: role
  a_specialization :: "string list"
  a_currentSessions :: "string list"
  a_lastActivity :: int
  a_performance :: AgentPerformance
  a_state :: "string \<rightharpoonup> 'v"

text \<open>The \<^verbatim>\<open>description\<close> text of a conflict is not modelled.\<close>

record 'v ConflictRecord =
  c_id :: string
  c_type :: conflictType
  c_severity :: severity
  c_involvedMemories :: "string list"
  c_involvedSessions :: "string list"
  c_involvedAgents :: "string list"
  c_resolutionTier :: nat
  c_resolutionStrategy :: string
  c_status :: conflictStatus
  c_createdAt :: int
  c_resolvedAt :: "int option"
  c_metadata :: "string \<rightharpoonup> 'v"

record 'v LearnedPattern =
  p_id :: string
  p_type :: patternType
  p_conditions :: "string \<rightharpoonup> 'v"
  p_actions :: "string \<rightharpoonup> 'v"
  p_confidence :: jsnum
  p_usageCount :: int
  p_successRate :: jsnum
  p_lastApplied :: int
  p_applicableContexts :: "string list"

section \<open>The orchestrator state\<close>

text \<open>
  A JavaScript \<^verbatim>\<open>Map\<close> keeps its keys in insertion order: it is an association list
  with distinct keys. \<^verbatim>\<open>get\<close> is \<^const>\<open>map_of\<close>, \<^verbatim>\<open>set\<close> is \<^const>\<open>AList.update\<close>
  (an existing key keeps its place, a new key goes to the end), \<^verbatim>\<open>delete\<close> is
  \<^const>\<open>AList.delete\<close>.

  Session objects are shared: \<^verbatim>\<open>this.sessions\<close> and
  \<^verbatim>\<open>this.coordination.sessionHierarchy\<close> hold references to the same objects, and
  \<^verbatim>\<open>getSessionContext\<close> returns such a reference. So the session objects live in a
  heap, a list indexed by address, and the two maps hold addresses. An object is
  allocated at the end of the heap and never freed.

  Agent, conflict and pattern objects are only reached through their own map, so these
  maps hold the records themselves. \<^verbatim>\<open>coordination.activeAgents\<close> and
  \<^verbatim>\<open>coordination.globalPatterns.patterns\<close> mirror \<^verbatim>\<open>agents\<close> and \<^verbatim>\<open>patterns\<close> key by key
  and are never read; they are left out, as are the configuration constants no method reads.
\<close>

type_synonym addr = nat

record 'v orchestrator =
  heap :: "'v SessionContext list"
  sessions :: "(string \<times> addr) list"
  sessionHierarchy :: "(string \<times> addr) list"
  agents :: "(string \<times> 'v AgentContext) list"
  conflicts :: "(string \<times> 'v ConflictRecord) list"
  patterns :: "(string \<times> 'v LearnedPattern) list"
  tier1_enabled :: bool
  tier2_enabled :: bool
  tier2_contextualAnalysis :: bool
  tier2_votingMechanism :: bool
  tier3_enabled :: bool
  activeConflicts :: "'v ConflictRecord list"
  patternsLearned :: int
  patternsApplied :: int

text \<open>The state built by the constructor (\<^verbatim>\<open>initializeCoordination\<close>).\<close>

definition initial :: "'v orchestrator" where
  "initial = \<lparr> heap = [], sessions = [], sessionHierarchy = [], agents = [],
     conflicts = [], patterns = [],
     tier1_enabled = True, tier2_enabled = True, tier2_contextualAnalysis = True,
     tier2_votingMechanism = True, tier3_enabled = True,
     activeConflicts = [], patternsLearned = 0, patternsApplied = 0 \<rparr>"

text \<open>
  Every method awaits \<^verbatim>\<open>client.storeMemory\<close> without a \<^verbatim>\<open>try\<close>: when the HTTP client
  rejects, the method rejects with the client's error, after the mutations made before
  the call. Whether a call to the client succeeds is an input of the model.
\<close>

datatype error = VPSMemoryError

text \<open>
  \<^verbatim>\<open>this.sessions.get(id)\<close>: the address and the object stored under an id. A reference
  held by the map is always to a live object (\<open>addrs_ok\<close> below, which every operation
  keeps); the test on the address only keeps the read inside the heap.
\<close>

definition get_session :: "'v orchestrator \<Rightarrow> string \<Rightarrow> (addr \<times> 'v SessionContext) option" where
  "get_session s k =
     (case map_of (sessions s) k of
        None \<Rightarrow> None
      | Some a \<Rightarrow> (if a < length (heap s) then Some (a, heap s ! a) else None))"

text \<open>\<^verbatim>\<open>this.sessions.get(options.parentSessionId)\<close>: no key is \<^verbatim>\<open>undefined\<close>.\<close>

definition parent_ref ::
  "'v orchestrator \<Rightarrow> string option \<Rightarrow> (addr \<times> 'v SessionContext) option" where
  "parent_ref s p = (case p of None \<Rightarrow> None | Some pid \<Rightarrow> get_session s pid)"

text \<open>
  A write to fields of the object at an address. (An update of a list outside its
  range changes nothing, so the read is never used out of range.)
\<close>

definition modify ::
  "addr \<Rightarrow> ('v SessionContext \<Rightarrow> 'v SessionContext) \<Rightarrow> 'v orchestrator \<Rightarrow> 'v orchestrator" where
  "modify a f s = s\<lparr> heap := (heap s)[a := f (heap s ! a)] \<rparr>"

section \<open>Session store\<close>

text \<open>
  \<^verbatim>\<open>createSession\<close>. The id is \<^verbatim>\<open>session-${Date.now()}-${random}\<close>; the part after
  the prefix is the input \<open>tok\<close>, and \<open>now\<close> is the clock. The result is the address of
  the new session object. \<^verbatim>\<open>this.sessions.set(options.parentSessionId, parent)\<close> stores
  the object the key already holds, which changes nothing.
\<close>

definition new_session ::
  "string \<Rightarrow> string option \<Rightarrow> nat \<Rightarrow> role \<Rightarrow> (string \<rightharpoonup> 'v) option \<Rightarrow> int option \<Rightarrow> int
     \<Rightarrow> 'v SessionContext" where
  "new_session sessionId parentSessionId hierarchyLevel agentRole initialState ttl now =
     \<lparr> s_id = sessionId, s_parentSessionId = parentSessionId,
       s_hierarchyLevel = hierarchyLevel, s_agentRole = agentRole,
       s_state = (case initialState of None \<Rightarrow> Map.empty | Some m \<Rightarrow> m),
       s_createdAt = now, s_lastAccess = now,
       s_ttl = (case ttl of None \<Rightarrow> 3600 | Some t \<Rightarrow> num_or t 3600),
       s_isActive = True, s_childSessions = [], s_memoryContext = [] \<rparr>"

definition createSession ::
  "role \<Rightarrow> string option \<Rightarrow> (string \<rightharpoonup> 'v) option \<Rightarrow> int option \<Rightarrow> string \<Rightarrow> int \<Rightarrow> bool
     \<Rightarrow> 'v orchestrator \<Rightarrow> (error + addr) \<times> 'v orchestrator" where
  "createSession agentRole parentSessionId initialState ttl tok now store_ok s =
     (let sessionId = ''session-'' @ tok;
          hierarchyLevel =
            (if truthy parentSessionId
             then (case parent_ref s parentSessionId of
                     None \<Rightarrow> 0
                   | Some (pa, parent) \<Rightarrow> num_or (s_hierarchyLevel parent) 0) + 1
             else 0);
          session = new_session sessionId parentSessionId hierarchyLevel agentRole
                      initialState ttl now;
          s1 = (if truthy parentSessionId
                then (case parent_ref s parentSessionId of
                        None \<Rightarrow> s
                      | Some (pa, parent) \<Rightarrow>
                          modify pa (\<lambda>x. x\<lparr> s_childSessions := s_childSessions x @ [sessionId] \<rparr>) s)
                else s);
          a = length (heap s1);
          s2 = s1\<lparr> heap := heap s1 @ [session],
                   sessions := AList.update sessionId a (sessions s1),
                   sessionHierarchy := AList.update sessionId a (sessionHierarchy s1) \<rparr>
      in (if store_ok then Inr a else Inl VPSMemoryError, s2))"

text \<open>The TTL test of \<^verbatim>\<open>getSessionContext\<close> and \<^verbatim>\<open>cleanupExpiredSessions\<close>.\<close>

definition expired :: "int \<Rightarrow> 'v SessionContext \<Rightarrow> bool" where
  "expired now x = (now - s_createdAt x > s_ttl x * 1000)"

text \<open>
  \<^verbatim>\<open>getSessionContext\<close> calls itself on the parent, and a chain of parent ids that
  runs into a cycle of live sessions never ends: the recursion is bounded by fuel, and
  \<open>None\<close> is a call that does not return. The result is \<^verbatim>\<open>null\<close> (\<open>None\<close>) or the
  address of the session object, which is the stored object itself. The clock is read
  once per call. The merge reads the parent object the inner call returned and the
  session's own state as they are after the inner call.
\<close>

fun getSessionContext ::
  "nat \<Rightarrow> int \<Rightarrow> string \<Rightarrow> bool \<Rightarrow> 'v orchestrator \<Rightarrow> (addr option \<times> 'v orchestrator) option" where
  "getSessionContext 0 now sessionId includeHierarchy s = None"
| "getSessionContext (Suc fuel) now sessionId includeHierarchy s =
     (case get_session s sessionId of
        None \<Rightarrow> Some (None, s)
      | Some (a, session) \<Rightarrow>
          (let s1 = modify a (\<lambda>x. x\<lparr> s_lastAccess := now \<rparr>) s in
           if expired now session
           then Some (Some a, modify a (\<lambda>x. x\<lparr> s_isActive := False \<rparr>) s1)
           else (case s_parentSessionId session of
                   None \<Rightarrow> Some (Some a, s1)
                 | Some pid \<Rightarrow>
                     if includeHierarchy \<and> pid \<noteq> []
                     then (case getSessionContext fuel now pid True s1 of
                             None \<Rightarrow> None
                           | Some (None, s2) \<Rightarrow> Some (Some a, s2)
                           | Some (Some pa, s2) \<Rightarrow>
                               Some (Some a,
                                 modify a (\<lambda>x. x\<lparr> s_state := s_state (heap s2 ! pa) ++ s_state x \<rparr>) s2))
                     else Some (Some a, s1))))"

text \<open>
  \<^verbatim>\<open>cleanupExpiredSessions\<close>: the loop over \<^verbatim>\<open>this.sessions.entries()\<close>, in insertion
  order. \<open>store_ok sessionId\<close> tells whether the audit write for that session succeeds;
  a failed write ends the loop with the client's error.
\<close>

fun cleanup_loop ::
  "int \<Rightarrow> (string \<Rightarrow> bool) \<Rightarrow> (string \<times> addr) list \<Rightarrow> int \<Rightarrow> 'v orchestrator
     \<Rightarrow> (error + int) \<times> 'v orchestrator" where
  "cleanup_loop now store_ok [] cleanedCount s = (Inr cleanedCount, s)"
| "cleanup_loop now store_ok ((sessionId, a) # rest) cleanedCount s =
     (if a < length (heap s) \<and> expired now (heap s ! a)
      then (let s1 = (modify a (\<lambda>x. x\<lparr> s_isActive := False \<rparr>) s)
                       \<lparr> sessionHierarchy := AList.delete sessionId (sessionHierarchy s) \<rparr>
            in if store_ok sessionId
               then cleanup_loop now store_ok rest (cleanedCount + 1) s1
               else (Inl VPSMemoryError, s1))
      else cleanup_loop now store_ok rest cleanedCount s)"

definition cleanupExpiredSessions ::
  "int \<Rightarrow> (string \<Rightarrow> bool) \<Rightarrow> 'v orchestrator \<Rightarrow> (error + int) \<times> 'v orchestrator" where
  "cleanupExpiredSessions now store_ok s = cleanup_loop now store_ok (sessions s) 0 s"

section \<open>Agent registry\<close>

text \<open>The record \<^verbatim>\<open>registerAgent\<close> builds: every performance counter at its start value.\<close>

definition new_agent :: "string \<Rightarrow> role \<Rightarrow> string list \<Rightarrow> int \<Rightarrow> 'v AgentContext" where
  "new_agent agentId role specialization now =
     \<lparr> a_id = agentId, a_role = role, a_specialization = specialization,
       a_currentSessions = [], a_lastActivity = now,
       a_performance = \<lparr> tasksCompleted = 0, successRate = Num 1,
                         averageResponseTime = Num 0, conflictResolutions = 0,
                         patternContributions = 0 \<rparr>,
       a_state = Map.empty \<rparr>"

definition registerAgent ::
  "string \<Rightarrow> role \<Rightarrow> string list \<Rightarrow> int \<Rightarrow> bool \<Rightarrow> 'v orchestrator
     \<Rightarrow> (error + 'v AgentContext) \<times> 'v orchestrator" where
  "registerAgent agentId role specialization now store_ok s =
     (let agent = new_agent agentId role specialization now;
          s1 = s\<lparr> agents := AList.update agentId agent (agents s) \<rparr>
      in (if store_ok then Inr agent else Inl VPSMemoryError, s1))"

section \<open>Conflict resolver\<close>

record tierResult =
  tr_resolved :: bool
  tr_strategy :: string

definition resolveMemoryConflict :: "'v ConflictRecord \<Rightarrow> tierResult" where
  "resolveMemoryConflict c = \<lparr> tr_resolved = True, tr_strategy = ''memory_deduplication'' \<rparr>"

definition resolveSessionConflict :: "'v ConflictRecord \<Rightarrow> tierResult" where
  "resolveSessionConflict c =
     \<lparr> tr_resolved = True, tr_strategy = ''session_hierarchy_precedence'' \<rparr>"

definition resolveAgentConflict :: "'v ConflictRecord \<Rightarrow> tierResult" where
  "resolveAgentConflict c = \<lparr> tr_resolved = True, tr_strategy = ''agent_precedence'' \<rparr>"

definition resolvePatternConflict :: "'v ConflictRecord \<Rightarrow> tierResult" where
  "resolvePatternConflict c = \<lparr> tr_resolved = True, tr_strategy = ''pattern_priority'' \<rparr>"

definition performContextualAnalysis :: "'v ConflictRecord \<Rightarrow> jsnum" where
  "performContextualAnalysis c = Num (9 / 10)"

definition conductAgentVoting :: "'v ConflictRecord \<Rightarrow> jsnum" where
  "conductAgentVoting c = Num (8 / 10)"

text \<open>
  The \<^verbatim>\<open>switch\<close> of \<^verbatim>\<open>attemptTier1Resolution\<close> has one case for each declared type; its
  \<^verbatim>\<open>default\<close> branch is for no value of the type.
\<close>

definition attemptTier1Resolution :: "'v orchestrator \<Rightarrow> 'v ConflictRecord \<Rightarrow> tierResult" where
  "attemptTier1Resolution s conflict =
     (if \<not> tier1_enabled s then \<lparr> tr_resolved = False, tr_strategy = ''tier1_disabled'' \<rparr>
      else (case c_type conflict of
              memory_conflict \<Rightarrow> resolveMemoryConflict conflict
            | session_conflict \<Rightarrow> resolveSessionConflict conflict
            | agent_conflict \<Rightarrow> resolveAgentConflict conflict
            | pattern_conflict \<Rightarrow> resolvePatternConflict conflict))"

definition attemptTier2Resolution :: "'v orchestrator \<Rightarrow> 'v ConflictRecord \<Rightarrow> tierResult" where
  "attemptTier2Resolution s conflict =
     (if \<not> tier2_enabled s then \<lparr> tr_resolved = False, tr_strategy = ''tier2_disabled'' \<rparr>
      else
        (let mediators =
               filter (\<lambda>agent. a_role agent = coordinator \<or> a_role agent = orchestrator_role)
                 (map snd (agents s))
         in if length mediators = 0
            then \<lparr> tr_resolved = False, tr_strategy = ''no_mediators_available'' \<rparr>
            else if tier2_contextualAnalysis s
                    \<and> js_gt (performContextualAnalysis conflict) (Num (8 / 10))
            then \<lparr> tr_resolved = True, tr_strategy = ''contextual_analysis'' \<rparr>
            else if tier2_votingMechanism s \<and> length (c_involvedAgents conflict) > 1
                    \<and> js_gt (conductAgentVoting conflict) (Num (7 / 10))
            then \<lparr> tr_resolved = True, tr_strategy = ''agent_voting'' \<rparr>
            else \<lparr> tr_resolved = False, tr_strategy = ''tier2_exhausted'' \<rparr>))"

definition escalateToHuman ::
  "bool \<Rightarrow> 'v ConflictRecord \<Rightarrow> 'v orchestrator \<Rightarrow> (error + unit) \<times> 'v orchestrator" where
  "escalateToHuman store_ok conflict s =
     (if \<not> tier3_enabled s then (Inr (), s)
      else if \<not> store_ok then (Inl VPSMemoryError, s)
      else (Inr (), s\<lparr> activeConflicts := activeConflicts s @ [conflict] \<rparr>))"

text \<open>
  The conflict object is put into \<^verbatim>\<open>this.conflicts\<close> first and assigned to afterwards;
  \<open>store_conflict\<close> is the map entry following the object.
\<close>

definition store_conflict :: "'v ConflictRecord \<Rightarrow> 'v orchestrator \<Rightarrow> 'v orchestrator" where
  "store_conflict c s = s\<lparr> conflicts := AList.update (c_id c) c (conflicts s) \<rparr>"

text \<open>The conflict record \<^verbatim>\<open>resolveConflict\<close> starts from: tier 1, pending.\<close>

definition new_conflict ::
  "conflictType \<Rightarrow> string list \<Rightarrow> severity \<Rightarrow> (string \<rightharpoonup> 'v) \<Rightarrow> string \<Rightarrow> int
     \<Rightarrow> 'v ConflictRecord" where
  "new_conflict conflictType involvedItems severity metadata tok now =
     \<lparr> c_id = ''conflict-'' @ tok, c_type = conflictType, c_severity = severity,
       c_involvedMemories = (if conflictType = memory_conflict then involvedItems else []),
       c_involvedSessions = (if conflictType = session_conflict then involvedItems else []),
       c_involvedAgents = (if conflictType = agent_conflict then involvedItems else []),
       c_resolutionTier = 1, c_resolutionStrategy = [], c_status = pending,
       c_createdAt = now, c_resolvedAt = None, c_metadata = metadata \<rparr>"

definition resolveConflict ::
  "conflictType \<Rightarrow> string list \<Rightarrow> severity \<Rightarrow> (string \<rightharpoonup> 'v) \<Rightarrow> string \<Rightarrow> int \<Rightarrow> bool
     \<Rightarrow> 'v orchestrator \<Rightarrow> (error + 'v ConflictRecord) \<times> 'v orchestrator" where
  "resolveConflict conflictType involvedItems severity metadata tok now store_ok s =
     (let conflict = new_conflict conflictType involvedItems severity metadata tok now;
          s0 = store_conflict conflict s;
          tier1Result = attemptTier1Resolution s0 conflict
      in if tr_resolved tier1Result
         then (let c1 = conflict\<lparr> c_status := resolved, c_resolvedAt := Some now,
                                  c_resolutionStrategy := tr_strategy tier1Result \<rparr>
               in (Inr c1, store_conflict c1 s0))
         else
           (let c2 = conflict\<lparr> c_resolutionTier := 2 \<rparr>;
                s2 = store_conflict c2 s0;
                tier2Result = attemptTier2Resolution s2 c2
            in if tr_resolved tier2Result
               then (let c2r = c2\<lparr> c_status := resolved, c_resolvedAt := Some now,
                                    c_resolutionStrategy := tr_strategy tier2Result \<rparr>
                     in (Inr c2r, store_conflict c2r s2))
               else
                 (let c3 = c2\<lparr> c_resolutionTier := 3, c_status := escalated \<rparr>;
                      s3 = store_conflict c3 s2
                  in (case escalateToHuman store_ok c3 s3 of
                        (Inl e, s4) \<Rightarrow> (Inl e, s4)
                      | (Inr u, s4) \<Rightarrow> (Inr c3, s4)))))"

section \<open>Pattern store\<close>

fun patternType_name :: "patternType \<Rightarrow> string" where
  "patternType_name workflow = ''workflow''"
| "patternType_name resolution = ''resolution''"
| "patternType_name optimization = ''optimization''"
| "patternType_name prediction = ''prediction''"

definition learnPattern ::
  "patternType \<Rightarrow> (string \<rightharpoonup> 'v) \<Rightarrow> (string \<rightharpoonup> 'v) \<Rightarrow> string list \<Rightarrow> string \<Rightarrow> int \<Rightarrow> bool
     \<Rightarrow> 'v orchestrator \<Rightarrow> (error + 'v LearnedPattern) \<times> 'v orchestrator" where
  "learnPattern type context action applicableContexts tok now store_ok s =
     (let patternId = ''pattern-'' @ patternType_name type @ ''-'' @ tok;
          pattern = \<lparr> p_id = patternId, p_type = type, p_conditions = context,
                      p_actions = action, p_confidence = Num (1 / 2), p_usageCount = 0,
                      p_successRate = Num 0, p_lastApplied = now,
                      p_applicableContexts = applicableContexts \<rparr>;
          s1 = s\<lparr> patterns := AList.update patternId pattern (patterns s) \<rparr>
      in if store_ok then (Inr pattern, s1\<lparr> patternsLearned := patternsLearned s1 + 1 \<rparr>)
         else (Inl VPSMemoryError, s1))"

text \<open>
  The two private helpers of \<^verbatim>\<open>applyPattern\<close>: \<^verbatim>\<open>evaluatePatternMatch\<close> returns the
  constant \<^verbatim>\<open>0.85\<close>, and \<^verbatim>\<open>executePatternActions\<close> has an empty body, so its promise
  always resolves (\<open>Inr\<close>; a rejection would be \<open>Inl\<close>).
\<close>

definition evaluatePatternMatch :: "(string \<rightharpoonup> 'v) \<Rightarrow> (string \<rightharpoonup> 'v) \<Rightarrow> jsnum" where
  "evaluatePatternMatch conditions context = Num (85 / 100)"

definition executePatternActions :: "(string \<rightharpoonup> 'v) \<Rightarrow> (string \<rightharpoonup> 'v) \<Rightarrow> error + unit" where
  "executePatternActions actions context = Inr ()"

text \<open>
  \<^verbatim>\<open>applyPattern\<close>: the \<open>Inr\<close> case is the rest of the \<^verbatim>\<open>try\<close> block, the \<open>Inl\<close> case is
  the \<^verbatim>\<open>catch\<close> block.
\<close>

definition applyPattern ::
  "string \<Rightarrow> (string \<rightharpoonup> 'v) \<Rightarrow> int \<Rightarrow> 'v orchestrator \<Rightarrow> bool \<times> 'v orchestrator" where
  "applyPattern patternId currentContext now s =
     (case map_of (patterns s) patternId of
        None \<Rightarrow> (False, s)
      | Some pattern \<Rightarrow>
          (let matches = evaluatePatternMatch (p_conditions pattern) currentContext
           in if js_lt matches (Num (7 / 10)) then (False, s)
              else (case executePatternActions (p_actions pattern) currentContext of
                      Inr u \<Rightarrow>
                        (let p1 = pattern\<lparr> p_usageCount := p_usageCount pattern + 1,
                                           p_lastApplied := now \<rparr>;
                             p2 = p1\<lparr> p_successRate :=
                                      js_div (js_add (js_mul (p_successRate p1)
                                                        (Num (of_int (p_usageCount p1 - 1))))
                                                (Num 1))
                                        (Num (of_int (p_usageCount p1))) \<rparr>
                         in (True, s\<lparr> patterns := AList.update patternId p2 (patterns s),
                                      patternsApplied := patternsApplied s + 1 \<rparr>))
                    | Inl e \<Rightarrow>
                        (let p1 = pattern\<lparr> p_successRate :=
                                      js_div (js_add (js_mul (p_successRate pattern)
                                                        (Num (of_int (p_usageCount pattern - 1))))
                                                (Num 0))
                                        (Num (of_int (p_usageCount pattern))) \<rparr>
                         in (False, s\<lparr> patterns := AList.update patternId p1 (patterns s) \<rparr>)))))"

section \<open>Operations and runs\<close>

text \<open>
  The public methods as operations, each with the inputs the environment supplies (clock,
  id token, outcome of the audit write, fuel of \<^verbatim>\<open>getSessionContext\<close>), and a run: a
  sequence of operations, each on the state the previous one left. A run has no final
  state (\<open>None\<close>) when a \<^verbatim>\<open>getSessionContext\<close> in it does not return.
\<close>

datatype 'v operation =
    CreateSession role "string option" "(string \<rightharpoonup> 'v) option" "int option" string int bool
  | GetSessionContext nat int string bool
  | CleanupExpiredSessions int "string \<Rightarrow> bool"
  | RegisterAgent string role "string list" int bool
  | ResolveConflict conflictType "string list" severity "string \<rightharpoonup> 'v" string int bool
  | LearnPattern patternType "string \<rightharpoonup> 'v" "string \<rightharpoonup> 'v" "string list" string int bool
  | ApplyPattern string "string \<rightharpoonup> 'v" int

fun exec_op :: "'v operation \<Rightarrow> 'v orchestrator \<Rightarrow> 'v orchestrator option" where
  "exec_op (CreateSession agentRole parentSessionId initialState ttl tok now store_ok) s =
     Some (snd (createSession agentRole parentSessionId initialState ttl tok now store_ok s))"
| "exec_op (GetSessionContext fuel now sessionId includeHierarchy) s =
     map_option snd (getSessionContext fuel now sessionId includeHierarchy s)"
| "exec_op (CleanupExpiredSessions now store_ok) s =
     Some (snd (cleanupExpiredSessions now store_ok s))"
| "exec_op (RegisterAgent agentId role specialization now store_ok) s =
     Some (snd (registerAgent agentId role specialization now store_ok s))"
| "exec_op (ResolveConflict conflictType involvedItems severity metadata tok now store_ok) s =
     Some (snd (resolveConflict conflictType involvedItems severity metadata tok now store_ok s))"
| "exec_op (LearnPattern type context action applicableContexts tok now store_ok) s =
     Some (snd (learnPattern type context action applicableContexts tok now store_ok s))"
| "exec_op (ApplyPattern patternId currentContext now) s =
     Some (snd (applyPattern patternId currentContext now s))"

fun run :: "'v operation list \<Rightarrow> 'v orchestrator \<Rightarrow> 'v orchestrator option" where
  "run [] s = Some s"
| "run (x # xs) s = (case exec_op x s of None \<Rightarrow> None | Some s' \<Rightarrow> run xs s')"

section \<open>Predicates on states\<close>

text \<open>
  \<open>evolves x y\<close>: the session object \<open>y\<close> is a later version of \<open>x\<close>. Identity, parent,
  level, creation time and TTL are the same, \<^verbatim>\<open>isActive\<close> has not gone from false to
  true, no child id and no key of the state map is lost and no value of an existing key
  changed. \<open>heap_evolves\<close>: every object of the earlier heap is in the later heap at
  the same address, as a later version.
\<close>

definition evolves :: "'v SessionContext \<Rightarrow> 'v SessionContext \<Rightarrow> bool" where
  "evolves x y =
     (s_id y = s_id x \<and> s_parentSessionId y = s_parentSessionId x
      \<and> s_hierarchyLevel y = s_hierarchyLevel x \<and> s_agentRole y = s_agentRole x
      \<and> s_createdAt y = s_createdAt x \<and> s_ttl y = s_ttl x
      \<and> (s_isActive y \<longrightarrow> s_isActive x)
      \<and> set (s_childSessions x) \<subseteq> set (s_childSessions y)
      \<and> s_state x \<subseteq>\<^sub>m s_state y)"

definition heap_evolves :: "'v SessionContext list \<Rightarrow> 'v SessionContext list \<Rightarrow> bool" where
  "heap_evolves h h' = (length h \<le> length h' \<and> (\<forall>a<length h. evolves (h ! a) (h' ! a)))"

text \<open>
  \<open>linked h c p\<close>: in the heap \<open>h\<close> the session at address \<open>c\<close> is one level below the
  session at address \<open>p\<close>, which lists its id among its children.
\<close>

definition linked :: "'v SessionContext list \<Rightarrow> addr \<Rightarrow> addr \<Rightarrow> bool" where
  "linked h c p =
     (c < length h \<and> p < length h
      \<and> s_hierarchyLevel (h ! c) = s_hierarchyLevel (h ! p) + 1
      \<and> s_id (h ! c) \<in> set (s_childSessions (h ! p)))"

text \<open>No session id in the session map is the empty string.\<close>

definition session_ids_ok :: "'v orchestrator \<Rightarrow> bool" where
  "session_ids_ok s = (\<forall>k \<in> fst ` set (sessions s). k \<noteq> [])"

text \<open>Every address in the session map is the address of an object in the heap.\<close>

definition addrs_ok :: "'v orchestrator \<Rightarrow> bool" where
  "addrs_ok s = (\<forall>a \<in> snd ` set (sessions s). a < length (heap s))"

text \<open>
  \<open>hierarchy_ok\<close>: every stored session whose parent id is non-empty and names a stored
  session has a level above its parent's. Then no chain of parents runs into a cycle.
\<close>

definition hierarchy_ok :: "'v orchestrator \<Rightarrow> bool" where
  "hierarchy_ok s =
     (\<forall>k \<in> fst ` set (sessions s).
        case get_session s k of
          None \<Rightarrow> True
        | Some (a, x) \<Rightarrow>
            (case parent_ref s (s_parentSessionId x) of
               None \<Rightarrow> True
             | Some (pa, p) \<Rightarrow>
                 truthy (s_parentSessionId x) \<longrightarrow> s_hierarchyLevel p < s_hierarchyLevel x))"

text \<open>
  The merge of the state maps along the chain of parents of a session, in the words of
  the specification: the root's keys first, each descendant's keys overriding those of
  its ancestors. The chain goes up from the session as long as the session at hand is
  not expired, has a non-empty parent id and that parent is stored; \<open>n\<close> bounds its
  length.
\<close>

fun hierarchy_merge :: "nat \<Rightarrow> int \<Rightarrow> 'v orchestrator \<Rightarrow> string \<Rightarrow> (string \<rightharpoonup> 'v)" where
  "hierarchy_merge 0 now s k = Map.empty"
| "hierarchy_merge (Suc n) now s k =
     (case get_session s k of
        None \<Rightarrow> Map.empty
      | Some (a, x) \<Rightarrow>
          if expired now x then s_state x
          else (case s_parentSessionId x of
                  None \<Rightarrow> s_state x
                | Some pid \<Rightarrow>
                    if pid \<noteq> [] then hierarchy_merge n now s pid ++ s_state x
                    else s_state x))"

text \<open>The session id an operation creates, if it creates one.\<close>

fun creates :: "'v operation \<Rightarrow> string option" where
  "creates (CreateSession agentRole parentSessionId initialState ttl tok now store_ok) =
     Some (''session-'' @ tok)"
| "creates x = None"

text \<open>Every stored pattern has a count of at least \<open>0\<close> and a rate in \<open>[0,1]\<close>.\<close>

definition rates_ok :: "'v orchestrator \<Rightarrow> bool" where
  "rates_ok s \<longleftrightarrow>
     (\<forall>p \<in> snd ` set (patterns s). in_unit_range (p_successRate p) \<and> 0 \<le> p_usageCount p)"

section \<open>Concrete states\<close>

text \<open>The registry after \<^verbatim>\<open>registerAgent('a1', 'specialist', ['db'])\<close> at time \<open>1\<close>.\<close>

definition reg_state :: "nat orchestrator" where
  "reg_state = snd (registerAgent ''a1'' specialist [''db''] 1 True initial)"


text \<open>
  A root session with state \<^verbatim>\<open>{a: 1}\<close> and a TTL of one second, created at time \<open>0\<close>;
  and the store after a sweep at time \<open>5000\<close>, which finds it expired. In \<open>all_ok\<close>
  every audit write of a sweep succeeds.
\<close>

definition root_state :: "nat orchestrator" where
  "root_state = snd (createSession orchestrator_role None (Some [''a'' \<mapsto> 1]) (Some 1) ''r'' 0 True initial)"

definition all_ok :: "string \<Rightarrow> bool" where
  "all_ok k = True"

definition swept_state :: "nat orchestrator" where
  "swept_state = snd (cleanupExpiredSessions 5000 all_ok root_state)"

text \<open>
  The root of \<open>root_state\<close> with a child created at time \<open>10\<close>, with state \<^verbatim>\<open>{b: 2}\<close> and
  the default TTL; and two short runs: a sweep and a read with the hierarchy on the
  family, a read and a sweep on the swept store.
\<close>

definition family_state :: "nat orchestrator" where
  "family_state = snd (createSession specialist (Some ''session-r'') (Some [''b'' \<mapsto> 2]) None ''c'' 10 True root_state)"

definition later_ops :: "nat operation list" where
  "later_ops =
     [CleanupExpiredSessions 5000 all_ok,
      GetSessionContext (Suc (Suc 0)) 6000 ''session-c'' True]"

definition revisit_ops :: "nat operation list" where
  "revisit_ops =
     [GetSessionContext (Suc 0) 9000 ''session-r'' True,
      CleanupExpiredSessions 10000 all_ok]"

text \<open>
  The root of \<open>root_state\<close> with a child whose state \<^verbatim>\<open>{a: 3}\<close> overrides the root's key;
  and with a child of state \<^verbatim>\<open>{b: 2}\<close> whose TTL is one second.
\<close>

definition override_state :: "nat orchestrator" where
  "override_state = snd (createSession specialist (Some ''session-r'') (Some [''a'' \<mapsto> 3]) None ''c'' 10 True root_state)"

definition short_family_state :: "nat orchestrator" where
  "short_family_state = snd (createSession specialist (Some ''session-r'') (Some [''b'' \<mapsto> 2]) (Some 1) ''c'' 10 True root_state)"

section \<open>Agent registry: registering an id twice\<close>

text \<open>
  C2, as stated: a \<^verbatim>\<open>RegisterAgent\<close> call on an id that is already registered fails with
  \<^verbatim>\<open>DuplicateAgent\<close> and leaves the stored record unchanged. The source has no such
  check. Here \<^verbatim>\<open>a1\<close> is registered as a specialist and then registered again as a
  coordinator: the second call returns the new record and the stored record is replaced.
\<close>

theorem registerAgent_duplicate_counterexample:
  "map_of (agents reg_state) ''a1'' = Some (new_agent ''a1'' specialist [''db''] 1)
   \<and> fst (registerAgent ''a1'' coordinator [] 2 True reg_state)
       = Inr (new_agent ''a1'' coordinator [] 2)
   \<and> map_of (agents (snd (registerAgent ''a1'' coordinator [] 2 True reg_state))) ''a1''
       \<noteq> map_of (agents reg_state) ''a1''"
  by (simp add: registerAgent_def reg_state_def initial_def Let_def new_agent_def)

text \<open>
  C2, amended: a \<^verbatim>\<open>RegisterAgent\<close> call on an id that is already registered is not
  rejected. It returns the new record (it fails only when the audit write fails, and then
  after the registry has been written), the stored record is replaced by a new record for
  the given role and specializations with every performance counter at its start value,
  the id keeps its place in the registry and every other agent is unchanged.
\<close>

theorem registerAgent_overwrites:
  fixes s :: "'v orchestrator"
  assumes "map_of (agents s) agentId = Some old"
  shows "fst (registerAgent agentId role specialization now store_ok s) =
           (if store_ok then Inr (new_agent agentId role specialization now)
            else Inl VPSMemoryError)
   \<and> map_of (agents (snd (registerAgent agentId role specialization now store_ok s))) agentId
       = Some (new_agent agentId role specialization now)
   \<and> a_performance (new_agent agentId role specialization now :: 'v AgentContext) =
        \<lparr> tasksCompleted = 0, successRate = Num 1, averageResponseTime = Num 0,
          conflictResolutions = 0, patternContributions = 0 \<rparr>
   \<and> map fst (agents (snd (registerAgent agentId role specialization now store_ok s)))
       = map fst (agents s)
   \<and> (\<forall>k. k \<noteq> agentId \<longrightarrow>
         map_of (agents (snd (registerAgent agentId role specialization now store_ok s))) k
           = map_of (agents s) k)"
proof -
  have "agentId \<in> fst ` set (agents s)"
    using assms by (metis map_of_eq_None_iff option.distinct(1))
  then show ?thesis
    by (simp add: registerAgent_def Let_def update_conv' update_keys new_agent_def)
qed

theorem registerAgent_overwrites_witness:
  "map_of (agents reg_state) ''a1'' = Some (new_agent ''a1'' specialist [''db''] 1)
   \<and> map_of (agents (snd (registerAgent ''a1'' coordinator [] 2 False reg_state))) ''a1''
       = Some (new_agent ''a1'' coordinator [] 2)
   \<and> fst (registerAgent ''a1'' coordinator [] 2 False reg_state) = Inl VPSMemoryError"
proof -
  have h: "map_of (agents reg_state) ''a1'' = Some (new_agent ''a1'' specialist [''db''] 1)"
    by (simp add: registerAgent_def reg_state_def initial_def Let_def)
  show ?thesis
    using h registerAgent_overwrites [OF h, of coordinator "[]" 2 False] by simp
qed

section \<open>Pattern store: applying a pattern\<close>


lemma applyPattern_missing:
  "map_of (patterns s) patternId = None \<Longrightarrow> applyPattern patternId currentContext now s = (False, s)"
  by (simp add: applyPattern_def)



text \<open>
  A rate in \<open>[0,1]\<close> stays in \<open>[0,1]\<close>: the divisor of the running average is the
  incremented count, at least \<open>1\<close>.
\<close>

lemma applyPattern_rate_in_range:
  fixes s :: "'v orchestrator"
  assumes "map_of (patterns s) patternId = Some pattern"
    and "in_unit_range (p_successRate pattern)" and "0 \<le> p_usageCount pattern"
  shows "\<exists>p'. map_of (patterns (snd (applyPattern patternId currentContext now s))) patternId
            = Some p'
          \<and> in_unit_range (p_successRate p') \<and> 0 \<le> p_usageCount p'"
proof -
  from assms(2) obtain r where r: "p_successRate pattern = Num r" "0 \<le> r" "r \<le> 1"
    by (cases "p_successRate pattern") auto
  define n :: rat where "n = of_int (p_usageCount pattern)"
  have n: "0 \<le> n" using assms(3) by (simp add: n_def)
  have "r * n \<le> 1 * n" using r(3) n by (rule mult_right_mono)
  then have "0 \<le> (r * n + 1) / (n + 1)" "(r * n + 1) / (n + 1) \<le> 1"
    using r(2) n by (simp_all add: divide_le_eq)
  then show ?thesis
    using assms r n
    by (simp add: applyPattern_def evaluatePatternMatch_def executePatternActions_def Let_def
          update_conv' n_def)
qed

section \<open>Session store: creating a session under a parent\<close>

lemma root_state_eq:
  "root_state = initial\<lparr> heap := [new_session ''session-r'' None 0 orchestrator_role (Some [''a'' \<mapsto> 1]) (Some 1) 0],
      sessions := [(''session-r'', 0)], sessionHierarchy := [(''session-r'', 0)] \<rparr>"
  by (simp add: root_state_def createSession_def Let_def initial_def)

lemma swept_state_eq:
  "swept_state = initial\<lparr> heap := [(new_session ''session-r'' None 0 orchestrator_role (Some [''a'' \<mapsto> 1]) (Some 1) 0)\<lparr> s_isActive := False \<rparr>],
      sessions := [(''session-r'', 0)], sessionHierarchy := [] \<rparr>"
  by (simp add: swept_state_def root_state_eq cleanupExpiredSessions_def initial_def expired_def
        new_session_def modify_def num_or_def Let_def all_ok_def)

text \<open>
  C1, as stated: a \<^verbatim>\<open>CreateSession\<close> call whose parent id is set but names no active
  session fails with \<^verbatim>\<open>InvalidParent\<close> and creates nothing. The source never looks at
  the parent's \<^verbatim>\<open>isActive\<close> and treats a parent it does not find as level 0: on the
  empty store, a call with the parent id \<^verbatim>\<open>ghost\<close> returns a new session, which is in
  the session map afterwards.
\<close>

theorem createSession_invalid_parent_counterexample:
  "get_session (initial :: nat orchestrator) ''ghost'' = None
   \<and> sessions (initial :: nat orchestrator) = []
   \<and> fst (createSession specialist (Some ''ghost'') None None ''t1'' 0 True (initial :: nat orchestrator)) = Inr 0
   \<and> sessions (snd (createSession specialist (Some ''ghost'') None None ''t1'' 0 True (initial :: nat orchestrator))) = [(''session-t1'', 0)]
   \<and> heap (snd (createSession specialist (Some ''ghost'') None None ''t1'' 0 True (initial :: nat orchestrator)))
        = [new_session ''session-t1'' (Some ''ghost'') 1 specialist None None 0]"
  by (simp add: createSession_def get_session_def parent_ref_def initial_def Let_def)

text \<open>
  C1, amended: a \<^verbatim>\<open>CreateSession\<close> call with a non-empty parent id is never rejected
  for its parent. When the id is not in the session map, a new active session of level 1
  with that parent id is added and no stored session changes. When the id is in the map,
  whether that session is active or not, the new session has the parent's level plus
  one and its id is appended to the parent's \<^verbatim>\<open>childSessions\<close>. The call fails only when
  the audit write fails, and then after the session has been stored.
\<close>

theorem createSession_never_rejects:
  fixes s :: "'v orchestrator"
  assumes "pid \<noteq> []"
  shows "(get_session s pid = None \<longrightarrow>
            createSession agentRole (Some pid) initialState ttl tok now store_ok s =
              (if store_ok then Inr (length (heap s)) else Inl VPSMemoryError,
               s\<lparr> heap := heap s @ [new_session (''session-'' @ tok) (Some pid) 1 agentRole initialState ttl now],
                  sessions := AList.update (''session-'' @ tok) (length (heap s)) (sessions s),
                  sessionHierarchy := AList.update (''session-'' @ tok) (length (heap s)) (sessionHierarchy s) \<rparr>))
       \<and> (\<forall>pa parent. get_session s pid = Some (pa, parent) \<longrightarrow>
            createSession agentRole (Some pid) initialState ttl tok now store_ok s =
              (if store_ok then Inr (length (heap s)) else Inl VPSMemoryError,
               s\<lparr> heap := (heap s)[pa := parent\<lparr> s_childSessions := s_childSessions parent @ [''session-'' @ tok] \<rparr>]
                     @ [new_session (''session-'' @ tok) (Some pid) (s_hierarchyLevel parent + 1) agentRole initialState ttl now],
                  sessions := AList.update (''session-'' @ tok) (length (heap s)) (sessions s),
                  sessionHierarchy := AList.update (''session-'' @ tok) (length (heap s)) (sessionHierarchy s) \<rparr>))"
proof (intro conjI impI allI)
  assume "get_session s pid = None"
  then show "createSession agentRole (Some pid) initialState ttl tok now store_ok s =
              (if store_ok then Inr (length (heap s)) else Inl VPSMemoryError,
               s\<lparr> heap := heap s @ [new_session (''session-'' @ tok) (Some pid) 1 agentRole initialState ttl now],
                  sessions := AList.update (''session-'' @ tok) (length (heap s)) (sessions s),
                  sessionHierarchy := AList.update (''session-'' @ tok) (length (heap s)) (sessionHierarchy s) \<rparr>)"
    using assms by (simp add: createSession_def parent_ref_def Let_def)
next
  fix pa parent
  assume h: "get_session s pid = Some (pa, parent)"
  then have p: "parent = heap s ! pa" "pa < length (heap s)"
    by (auto simp add: get_session_def split: option.splits if_splits)
  show "createSession agentRole (Some pid) initialState ttl tok now store_ok s =
              (if store_ok then Inr (length (heap s)) else Inl VPSMemoryError,
               s\<lparr> heap := (heap s)[pa := parent\<lparr> s_childSessions := s_childSessions parent @ [''session-'' @ tok] \<rparr>]
                     @ [new_session (''session-'' @ tok) (Some pid) (s_hierarchyLevel parent + 1) agentRole initialState ttl now],
                  sessions := AList.update (''session-'' @ tok) (length (heap s)) (sessions s),
                  sessionHierarchy := AList.update (''session-'' @ tok) (length (heap s)) (sessionHierarchy s) \<rparr>)"
    using assms h p by (simp add: createSession_def parent_ref_def Let_def modify_def num_or_def)
qed

lemma swept_root:
  "get_session swept_state ''session-r'' =
     Some (0, (new_session ''session-r'' None 0 orchestrator_role (Some [''a'' \<mapsto> 1]) (Some 1) 0)
                \<lparr> s_isActive := False \<rparr>)"
  by (simp add: swept_state_eq get_session_def)

theorem createSession_never_rejects_witness:
  "get_session (initial :: nat orchestrator) ''ghost'' = None
   \<and> createSession specialist (Some ''ghost'') None None ''t1'' 0 False (initial :: nat orchestrator) =
       (Inl VPSMemoryError,
        initial\<lparr> heap := [new_session ''session-t1'' (Some ''ghost'') 1 specialist None None 0],
                  sessions := [(''session-t1'', 0)], sessionHierarchy := [(''session-t1'', 0)] \<rparr>)
   \<and> map_option (s_isActive \<circ> snd) (get_session swept_state ''session-r'') = Some False
   \<and> fst (createSession specialist (Some ''session-r'') None None ''c'' 6000 True swept_state) = Inr 1
   \<and> heap (snd (createSession specialist (Some ''session-r'') None None ''c'' 6000 True swept_state)) =
       [(new_session ''session-r'' None 0 orchestrator_role (Some [''a'' \<mapsto> 1]) (Some 1) 0)
           \<lparr> s_isActive := False, s_childSessions := [''session-c''] \<rparr>,
        new_session ''session-c'' (Some ''session-r'') 1 specialist None None 6000]"
proof -
  have g: "get_session (initial :: nat orchestrator) ''ghost'' = None"
    by (simp add: get_session_def initial_def)
  have i: "heap (initial :: nat orchestrator) = []" "sessions (initial :: nat orchestrator) = []"
    "sessionHierarchy (initial :: nat orchestrator) = []"
    by (simp_all add: initial_def)
  have w: "heap swept_state = [(new_session ''session-r'' None 0 orchestrator_role (Some [''a'' \<mapsto> 1]) (Some 1) 0)
                \<lparr> s_isActive := False \<rparr>]"
    by (simp add: swept_state_eq)
  show ?thesis
    using createSession_never_rejects
            [where pid = "''ghost''" and s = "initial :: nat orchestrator" and agentRole = specialist
               and initialState = None and ttl = None and tok = "''t1''" and now = 0
               and store_ok = False]
          createSession_never_rejects
            [where pid = "''session-r''" and s = swept_state and agentRole = specialist
               and initialState = None and ttl = None and tok = "''c''" and now = 6000
               and store_ok = True]
    by (simp add: g i w swept_root new_session_def)
qed

section \<open>Conflict resolver: the tier that answers\<close>

text \<open>
  Each tier-1 strategy reports a resolution. So with tier 1 enabled, \<^verbatim>\<open>resolveConflict\<close>
  returns the conflict resolved at tier 1 with the strategy of its type, stored under its
  id; tier 2 and the escalation are not entered and the active-conflicts list is
  unchanged.
\<close>

lemma attemptTier1_resolves:
  "tier1_enabled s \<Longrightarrow> tr_resolved (attemptTier1Resolution s conflict)"
  by (simp add: attemptTier1Resolution_def resolveMemoryConflict_def
        resolveSessionConflict_def resolveAgentConflict_def resolvePatternConflict_def
      split: conflictType.splits)

lemma resolveConflict_resolves_at_tier1:
  fixes s :: "'v orchestrator"
  assumes "tier1_enabled s"
  shows "\<exists>c. resolveConflict conflictType involvedItems severity metadata tok now store_ok s
              = (Inr c, s\<lparr> conflicts := AList.update (''conflict-'' @ tok) c (conflicts s) \<rparr>)
           \<and> c_status c = resolved \<and> c_resolutionTier c = 1 \<and> c_resolvedAt c = Some now
           \<and> c_id c = ''conflict-'' @ tok"
proof -
  have "tier1_enabled (store_conflict
          (new_conflict conflictType involvedItems severity metadata tok now) s)"
    using assms by (simp add: store_conflict_def)
  from attemptTier1_resolves [OF this] show ?thesis
    by (simp add: resolveConflict_def Let_def store_conflict_def new_conflict_def)
qed

text \<open>
  No method writes the tier switches, and the constructor enables tier 1: in every state
  that a run reaches from the constructor's state, tier 1 is enabled, and every
  \<^verbatim>\<open>resolveConflict\<close> call returns the conflict resolved at tier 1. (The session methods
  do not write the pattern store either, which is used further down.)
\<close>

lemma getSessionContext_keeps:
  "getSessionContext fuel now sessionId includeHierarchy s = Some (r, s')
     \<Longrightarrow> tier1_enabled s' = tier1_enabled s \<and> patterns s' = patterns s"
proof (induction fuel arbitrary: sessionId includeHierarchy s r s')
  case 0
  then show ?case by simp
next
  case (Suc fuel)
  from Suc.prems show ?case
    by (auto simp add: Let_def modify_def split: option.splits if_splits prod.splits
          dest!: Suc.IH)
qed

lemma cleanup_loop_keeps:
  "tier1_enabled (snd (cleanup_loop now store_ok es cleanedCount s)) = tier1_enabled s
   \<and> patterns (snd (cleanup_loop now store_ok es cleanedCount s)) = patterns s"
proof (induction es arbitrary: cleanedCount s)
  case Nil
  show ?case by simp
next
  case (Cons e es)
  obtain k a where e: "e = (k, a)" by (cases e)
  show ?case by (simp add: e Let_def modify_def Cons.IH)
qed

lemma createSession_keeps:
  "tier1_enabled (snd (createSession agentRole parentSessionId initialState ttl tok now
                         store_ok s)) = tier1_enabled s
   \<and> patterns (snd (createSession agentRole parentSessionId initialState ttl tok now
                         store_ok s)) = patterns s"
  by (simp add: createSession_def Let_def modify_def split: option.splits prod.splits)

lemma exec_op_tier1_enabled:
  "exec_op x s = Some s' \<Longrightarrow> tier1_enabled s' = tier1_enabled s"
proof (cases x)
  case (CreateSession x11 x12 x13 x14 x15 x16 x17)
  assume "exec_op x s = Some s'"
  with CreateSession show ?thesis
    by (auto simp add: createSession_keeps)
next
  case (GetSessionContext x21 x22 x23 x24)
  assume "exec_op x s = Some s'"
  with GetSessionContext show ?thesis
    by (auto dest: getSessionContext_keeps)
next
  case (CleanupExpiredSessions x31 x32)
  assume "exec_op x s = Some s'"
  with CleanupExpiredSessions show ?thesis
    by (auto simp add: cleanupExpiredSessions_def cleanup_loop_keeps)
next
  case (RegisterAgent x41 x42 x43 x44 x45)
  assume "exec_op x s = Some s'"
  with RegisterAgent show ?thesis
    by (auto simp add: registerAgent_def Let_def)
next
  case (ResolveConflict x51 x52 x53 x54 x55 x56 x57)
  assume "exec_op x s = Some s'"
  with ResolveConflict show ?thesis
    by (auto simp add: resolveConflict_def Let_def escalateToHuman_def store_conflict_def
          split: if_splits)
next
  case (LearnPattern x61 x62 x63 x64 x65 x66 x67)
  assume "exec_op x s = Some s'"
  with LearnPattern show ?thesis
    by (auto simp add: learnPattern_def Let_def split: if_splits)
next
  case (ApplyPattern x71 x72 x73)
  assume "exec_op x s = Some s'"
  with ApplyPattern show ?thesis
    by (auto simp add: applyPattern_def Let_def split: option.splits sum.splits if_splits)
qed

lemma run_tier1_enabled:
  "run ops s = Some s' \<Longrightarrow> tier1_enabled s' = tier1_enabled s"
proof (induction ops arbitrary: s)
  case Nil
  then show ?case by simp
next
  case (Cons x xs)
  then show ?case
    by (auto split: option.splits dest: exec_op_tier1_enabled)
qed

lemma reachable_resolves_at_tier1:
  fixes s :: "'v orchestrator"
  assumes "run ops initial = Some s"
  shows "\<exists>c. fst (resolveConflict conflictType involvedItems severity metadata tok now store_ok s)
              = Inr c
           \<and> c_status c = resolved \<and> c_resolutionTier c = 1
           \<and> activeConflicts
                 (snd (resolveConflict conflictType involvedItems severity metadata tok now
                         store_ok s)) = activeConflicts s"
proof -
  from run_tier1_enabled [OF assms] have "tier1_enabled s" by (simp add: initial_def)
  from resolveConflict_resolves_at_tier1 [OF this, of conflictType involvedItems severity
         metadata tok now store_ok]
  show ?thesis by auto
qed

section \<open>How the heap of sessions changes\<close>

lemma evolves_refl: "evolves x x"
  by (simp add: evolves_def)

lemma evolves_trans: "evolves x y \<Longrightarrow> evolves y z \<Longrightarrow> evolves x z"
  unfolding evolves_def by (auto intro: map_le_trans)

lemma heap_evolves_refl: "heap_evolves h h"
  by (simp add: heap_evolves_def evolves_refl)

lemma heap_evolves_trans: "heap_evolves h1 h2 \<Longrightarrow> heap_evolves h2 h3 \<Longrightarrow> heap_evolves h1 h3"
  unfolding heap_evolves_def
  by (meson evolves_trans le_trans less_le_trans)

lemma heap_evolves_update:
  assumes "a < length h \<Longrightarrow> evolves (h ! a) y"
  shows "heap_evolves h (h[a := y])"
  using assms
  by (cases "a < length h") (auto simp add: heap_evolves_def nth_list_update evolves_refl)

lemma heap_evolves_append: "heap_evolves h (h @ ys)"
  by (simp add: heap_evolves_def nth_append evolves_refl)

lemma heap_modify: "heap (modify a f s) = (heap s)[a := f (heap s ! a)]"
  by (simp add: modify_def)

lemma modify_evolves:
  assumes "\<And>x. evolves x (f x)"
  shows "heap_evolves (heap s) (heap (modify a f s))"
  by (simp add: heap_modify heap_evolves_update assms)

lemma modify_fields:
  "sessions (modify a f s) = sessions s"
  "length (heap (modify a f s)) = length (heap s)"
  by (simp_all add: modify_def)

lemma evolves_touch: "evolves x (x\<lparr> s_lastAccess := t \<rparr>)"
  by (simp add: evolves_def)

lemma evolves_deactivate: "evolves x (x\<lparr> s_isActive := False \<rparr>)"
  by (simp add: evolves_def)

lemma evolves_child: "evolves x (x\<lparr> s_childSessions := s_childSessions x @ zs \<rparr>)"
  by (auto simp add: evolves_def)

lemma evolves_merge: "evolves x (x\<lparr> s_state := m ++ s_state x \<rparr>)"
  by (simp add: evolves_def map_le_def map_add_dom_app_simps)

lemma createSession_evolves:
  "heap_evolves (heap s)
     (heap (snd (createSession agentRole parentSessionId initialState ttl tok now store_ok s)))"
proof -
  have e: "heap_evolves (heap s)
             (heap (modify pa (\<lambda>x. x\<lparr> s_childSessions := s_childSessions x @ zs \<rparr>) s) @ ys)"
    for pa zs ys
    by (rule heap_evolves_trans [OF _ heap_evolves_append], rule modify_evolves)
      (rule evolves_child)
  show ?thesis
    by (auto simp add: createSession_def Let_def heap_evolves_append e split: option.splits)
qed

lemma getSessionContext_evolves:
  "getSessionContext fuel now sessionId includeHierarchy s = Some (r, s')
     \<Longrightarrow> heap_evolves (heap s) (heap s') \<and> sessions s' = sessions s
         \<and> length (heap s') = length (heap s)"
proof (induction fuel arbitrary: sessionId includeHierarchy s r s')
  case 0
  then show ?case by simp
next
  case (Suc fuel)
  show ?case
  proof (cases "get_session s sessionId")
    case None
    with Suc.prems show ?thesis by (simp add: heap_evolves_refl)
  next
    case (Some ax)
    obtain a x where ax: "ax = (a, x)" by (cases ax)
    let ?s1 = "modify a (\<lambda>x. x\<lparr> s_lastAccess := now \<rparr>) s"
    have e1: "heap_evolves (heap s) (heap ?s1)"
      by (rule modify_evolves) (rule evolves_touch)
    have e1d: "heap_evolves (heap s) (heap (modify a (\<lambda>x. x\<lparr> s_isActive := False \<rparr>) ?s1))"
      by (rule heap_evolves_trans [OF e1]) (rule modify_evolves, rule evolves_deactivate)
    show ?thesis
    proof (cases "expired now x")
      case True
      with Suc.prems Some ax e1d show ?thesis
        by (auto simp add: Let_def modify_fields)
    next
      case notexp: False
      show ?thesis
      proof (cases "\<exists>pid. s_parentSessionId x = Some pid \<and> includeHierarchy \<and> pid \<noteq> []")
        case False
        with Suc.prems Some ax notexp e1 show ?thesis
          by (auto simp add: Let_def modify_fields split: option.splits if_splits)
      next
        case True
        then obtain pid where pid: "s_parentSessionId x = Some pid" "includeHierarchy" "pid \<noteq> []"
          by blast
        from Suc.prems Some ax notexp pid
        obtain rp s2 where rec: "getSessionContext fuel now pid True ?s1 = Some (rp, s2)"
          by (auto simp add: Let_def split: option.splits)
        from Suc.IH [OF rec]
        have ih: "heap_evolves (heap ?s1) (heap s2)" "sessions s2 = sessions ?s1"
          "length (heap s2) = length (heap ?s1)" by simp_all
        have e2: "heap_evolves (heap s) (heap s2)"
          by (rule heap_evolves_trans [OF e1 ih(1)])
        show ?thesis
        proof (cases rp)
          case None
          with Suc.prems Some ax notexp pid rec have "s' = s2" by (simp add: Let_def)
          with e2 ih show ?thesis by (simp add: modify_fields)
        next
          case (Some pa)
          with Suc.prems \<open>get_session s sessionId = Some ax\<close> ax notexp pid rec
          have s': "s' = modify a (\<lambda>x. x\<lparr> s_state := s_state (heap s2 ! pa) ++ s_state x \<rparr>) s2"
            by (simp add: Let_def)
          have "heap_evolves (heap s2) (heap s')"
            unfolding s' by (rule modify_evolves) (rule evolves_merge)
          with e2 ih s' show ?thesis
            by (auto simp add: modify_fields intro: heap_evolves_trans)
        qed
      qed
    qed
  qed
qed

lemma cleanup_loop_evolves:
  "heap_evolves (heap s) (heap (snd (cleanup_loop now store_ok es cleanedCount s)))
   \<and> sessions (snd (cleanup_loop now store_ok es cleanedCount s)) = sessions s"
proof (induction es arbitrary: cleanedCount s)
  case Nil
  then show ?case by (simp add: heap_evolves_refl)
next
  case (Cons e es)
  obtain k a where e: "e = (k, a)" by (cases e)
  let ?s1 = "(modify a (\<lambda>x. x\<lparr> s_isActive := False \<rparr>) s)
               \<lparr> sessionHierarchy := AList.delete k (sessionHierarchy s) \<rparr>"
  have e1: "heap_evolves (heap s) (heap ?s1)"
    using modify_evolves [of "\<lambda>x. x\<lparr> s_isActive := False \<rparr>" s a]
    by (simp add: evolves_deactivate)
  have f1: "sessions ?s1 = sessions s" by (simp add: modify_fields)
  show ?case
    using Cons.IH [where cleanedCount = "cleanedCount + 1" and s = ?s1]
      Cons.IH [where cleanedCount = cleanedCount and s = s] e1 f1
    by (auto simp add: e Let_def intro: heap_evolves_trans)
qed

lemma exec_op_evolves:
  "exec_op x s = Some s' \<Longrightarrow> heap_evolves (heap s) (heap s')"
proof (cases x)
  case (CreateSession x11 x12 x13 x14 x15 x16 x17)
  assume "exec_op x s = Some s'"
  with CreateSession show ?thesis using createSession_evolves by auto
next
  case (GetSessionContext x21 x22 x23 x24)
  assume "exec_op x s = Some s'"
  with GetSessionContext show ?thesis using getSessionContext_evolves by fastforce
next
  case (CleanupExpiredSessions x31 x32)
  assume "exec_op x s = Some s'"
  with CleanupExpiredSessions show ?thesis
    using cleanup_loop_evolves [of s x31 x32 "sessions s" 0]
    by (auto simp add: cleanupExpiredSessions_def)
next
  case (RegisterAgent x41 x42 x43 x44 x45)
  assume "exec_op x s = Some s'"
  with RegisterAgent show ?thesis
    by (auto simp add: registerAgent_def Let_def heap_evolves_refl)
next
  case (ResolveConflict x51 x52 x53 x54 x55 x56 x57)
  assume "exec_op x s = Some s'"
  with ResolveConflict show ?thesis
    by (auto simp add: resolveConflict_def Let_def escalateToHuman_def store_conflict_def
          heap_evolves_refl split: if_splits)
next
  case (LearnPattern x61 x62 x63 x64 x65 x66 x67)
  assume "exec_op x s = Some s'"
  with LearnPattern show ?thesis
    by (auto simp add: learnPattern_def Let_def heap_evolves_refl split: if_splits)
next
  case (ApplyPattern x71 x72 x73)
  assume "exec_op x s = Some s'"
  with ApplyPattern show ?thesis
    by (auto simp add: applyPattern_def Let_def heap_evolves_refl
          split: option.splits sum.splits if_splits)
qed

lemma run_evolves:
  "run ops s = Some s' \<Longrightarrow> heap_evolves (heap s) (heap s')"
proof (induction ops arbitrary: s)
  case Nil
  then show ?case by (simp add: heap_evolves_refl)
next
  case (Cons x xs)
  then show ?case
    by (auto split: option.splits intro: heap_evolves_trans dest: exec_op_evolves)
qed

section \<open>Session store: flags and hierarchy links over runs\<close>

lemma linked_evolves:
  assumes "linked h c p" and "heap_evolves h h'"
  shows "linked h' c p"
  using assms unfolding linked_def heap_evolves_def evolves_def
  by (metis (no_types, lifting) in_mono less_le_trans)

lemma createSession_sessions:
  "sessions (snd (createSession agentRole parentSessionId initialState ttl tok now store_ok s))
     = AList.update (''session-'' @ tok)
         (length (heap s)) (sessions s)"
  by (auto simp add: createSession_def Let_def modify_fields split: option.splits)

lemma exec_op_ids_ok:
  assumes "exec_op x s = Some s'" and "session_ids_ok s"
  shows "session_ids_ok s'"
proof (cases x)
  case (CreateSession x11 x12 x13 x14 x15 x16 x17)
  with assms(1) have "sessions s' = AList.update (''session-'' @ x15) (length (heap s)) (sessions s)"
    by (auto simp add: createSession_sessions)
  with assms(2) show ?thesis
    by (simp add: session_ids_ok_def dom_update)
next
  case (GetSessionContext x21 x22 x23 x24)
  with assms show ?thesis
    using getSessionContext_evolves by (fastforce simp add: session_ids_ok_def)
next
  case (CleanupExpiredSessions x31 x32)
  with assms show ?thesis
    using cleanup_loop_evolves [of s x31 x32 "sessions s" 0]
    by (auto simp add: cleanupExpiredSessions_def session_ids_ok_def)
next
  case (RegisterAgent x41 x42 x43 x44 x45)
  with assms show ?thesis
    by (auto simp add: registerAgent_def Let_def session_ids_ok_def)
next
  case (ResolveConflict x51 x52 x53 x54 x55 x56 x57)
  with assms show ?thesis
    by (auto simp add: resolveConflict_def Let_def escalateToHuman_def store_conflict_def
          session_ids_ok_def split: if_splits)
next
  case (LearnPattern x61 x62 x63 x64 x65 x66 x67)
  with assms show ?thesis
    by (auto simp add: learnPattern_def Let_def session_ids_ok_def split: if_splits)
next
  case (ApplyPattern x71 x72 x73)
  with assms show ?thesis
    by (auto simp add: applyPattern_def Let_def session_ids_ok_def
          split: option.splits sum.splits if_splits)
qed

lemma run_ids_ok:
  "run ops s = Some s' \<Longrightarrow> session_ids_ok s \<Longrightarrow> session_ids_ok s'"
proof (induction ops arbitrary: s)
  case Nil
  then show ?case by simp
next
  case (Cons x xs)
  then show ?case by (auto split: option.splits dest: exec_op_ids_ok)
qed

lemma initial_ids_ok: "session_ids_ok initial"
  by (simp add: session_ids_ok_def initial_def)

lemma reachable_ids_ok:
  assumes "run ops initial = Some s"
  shows "session_ids_ok s"
  using run_ids_ok [OF assms initial_ids_ok] .

text \<open>
  C9: once the \<^verbatim>\<open>isActive\<close> flag of a session object is false, it is false after every
  run of operations, whatever their clocks and inputs: no method assigns \<^verbatim>\<open>true\<close> to the
  flag of an existing object. (A session object is identified by its address; its id
  does not change either.)
\<close>

theorem inactive_never_reactivated:
  fixes s :: "'v orchestrator" and ops :: "'v operation list"
  assumes "a < length (heap s)" and "\<not> s_isActive (heap s ! a)" and "run ops s = Some s'"
  shows "a < length (heap s') \<and> \<not> s_isActive (heap s' ! a)
         \<and> s_id (heap s' ! a) = s_id (heap s ! a)"
  using run_evolves [OF assms(3)] assms(1,2)
  by (auto simp add: heap_evolves_def evolves_def)

text \<open>
  C7: when a session \<open>S\<close> is created with a parent id that refers to a stored session
  \<open>P\<close>, then after the call \<open>S\<close> (the new object, at the next free address) is one level
  below \<open>P\<close> and \<open>P\<close> lists the id of \<open>S\<close> among its children; and the same holds after
  every run of operations that follows. Session ids are never empty
  (\<open>reachable_ids_ok\<close>: this holds in every state a run reaches from the initial one).
\<close>

theorem hierarchy_link_preserved:
  fixes s :: "'v orchestrator" and ops :: "'v operation list"
  assumes "session_ids_ok s"
    and "get_session s pid = Some (pa, parent)"
    and "run ops (snd (createSession agentRole (Some pid) initialState ttl tok now store_ok s))
           = Some s'"
  shows "linked (heap (snd (createSession agentRole (Some pid) initialState ttl tok now store_ok s)))
           (length (heap s)) pa
       \<and> s_id (heap (snd (createSession agentRole (Some pid) initialState ttl tok now store_ok s))
               ! length (heap s)) = ''session-'' @ tok
       \<and> s_hierarchyLevel (heap (snd (createSession agentRole (Some pid) initialState ttl tok now store_ok s)) ! pa)
           = s_hierarchyLevel parent
       \<and> linked (heap s') (length (heap s)) pa
       \<and> s_id (heap s' ! length (heap s)) = ''session-'' @ tok
       \<and> s_hierarchyLevel (heap s' ! pa) = s_hierarchyLevel parent"
proof -
  let ?s1 = "snd (createSession agentRole (Some pid) initialState ttl tok now store_ok s)"
  from assms(2) have pa: "pa < length (heap s)" "parent = heap s ! pa"
    by (auto simp add: get_session_def split: option.splits if_splits)
  from assms(2) have "pid \<in> fst ` set (sessions s)"
    by (auto simp add: get_session_def split: option.splits dest!: map_of_SomeD intro: rev_image_eqI)
  with assms(1) have pid: "pid \<noteq> []" by (auto simp add: session_ids_ok_def)
  have h1: "heap ?s1 = (heap s)[pa := parent\<lparr> s_childSessions := s_childSessions parent @ [''session-'' @ tok] \<rparr>]
                     @ [new_session (''session-'' @ tok) (Some pid) (s_hierarchyLevel parent + 1) agentRole initialState ttl now]"
    using pid assms(2) pa by (simp add: createSession_def parent_ref_def Let_def modify_def num_or_def)
  have l1: "linked (heap ?s1) (length (heap s)) pa"
    using pa by (simp add: h1 linked_def nth_append new_session_def)
  have i1: "s_id (heap ?s1 ! length (heap s)) = ''session-'' @ tok"
    by (simp add: h1 nth_append new_session_def)
  have v1: "s_hierarchyLevel (heap ?s1 ! pa) = s_hierarchyLevel parent"
    using pa by (simp add: h1 nth_append)
  have len: "length (heap s) < length (heap ?s1)" "pa < length (heap ?s1)"
    using pa by (simp_all add: h1)
  from run_evolves [OF assms(3)] have ev: "heap_evolves (heap ?s1) (heap s')" .
  have l2: "linked (heap s') (length (heap s)) pa"
    by (rule linked_evolves [OF l1 ev])
  from ev len have "s_id (heap s' ! length (heap s)) = s_id (heap ?s1 ! length (heap s))"
    "s_hierarchyLevel (heap s' ! pa) = s_hierarchyLevel (heap ?s1 ! pa)"
    by (auto simp add: heap_evolves_def evolves_def)
  with l1 l2 i1 v1 show ?thesis by simp
qed

lemma family_state_eq:
  "family_state = initial\<lparr>
      heap := [(new_session ''session-r'' None 0 orchestrator_role (Some [''a'' \<mapsto> 1]) (Some 1) 0)
                 \<lparr> s_childSessions := [''session-c''] \<rparr>,
               new_session ''session-c'' (Some ''session-r'') 1 specialist (Some [''b'' \<mapsto> 2]) None 10],
      sessions := [(''session-r'', 0), (''session-c'', 1)],
      sessionHierarchy := [(''session-r'', 0), (''session-c'', 1)] \<rparr>"
  by (simp add: family_state_def root_state_eq createSession_def Let_def initial_def
        parent_ref_def get_session_def modify_def num_or_def new_session_def)

lemma run_swept: "run revisit_ops swept_state \<noteq> None"
  by (simp add: revisit_ops_def swept_state_eq initial_def new_session_def num_or_def
        get_session_def modify_def expired_def
        cleanupExpiredSessions_def all_ok_def Let_def)

lemma run_family: "run later_ops family_state \<noteq> None"
  by (simp add: later_ops_def family_state_eq initial_def new_session_def num_or_def
        get_session_def modify_def expired_def
        cleanupExpiredSessions_def all_ok_def Let_def)

theorem inactive_never_reactivated_witness:
  "0 < length (heap swept_state) \<and> \<not> s_isActive (heap swept_state ! 0)
   \<and> run revisit_ops swept_state \<noteq> None
   \<and> \<not> s_isActive (heap (the (run revisit_ops swept_state)) ! 0)"
proof -
  have a: "0 < length (heap swept_state)" "\<not> s_isActive (heap swept_state ! 0)"
    by (simp_all add: swept_state_eq)
  from run_swept obtain s' where r: "run revisit_ops swept_state = Some s'"
    by blast
  from inactive_never_reactivated [OF a r] have "\<not> s_isActive (heap s' ! 0)"
    by simp
  with a r show ?thesis by simp
qed

theorem hierarchy_link_preserved_witness:
  "session_ids_ok root_state
   \<and> get_session root_state ''session-r''
       = Some (0, new_session ''session-r'' None 0 orchestrator_role (Some [''a'' \<mapsto> 1]) (Some 1) 0)
   \<and> run later_ops family_state \<noteq> None
   \<and> linked (heap family_state) 1 0
   \<and> linked (heap (the (run later_ops family_state))) 1 0"
proof -
  have i: "session_ids_ok root_state"
    by (simp add: session_ids_ok_def root_state_eq)
  have g: "get_session root_state ''session-r''
       = Some (0, new_session ''session-r'' None 0 orchestrator_role (Some [''a'' \<mapsto> 1]) (Some 1) 0)"
    by (simp add: get_session_def root_state_eq)
  have l: "length (heap root_state) = 1"
    by (simp add: root_state_eq)
  from run_family obtain s' where r0: "run later_ops family_state = Some s'"
    by blast
  then have r: "run later_ops (snd (createSession specialist (Some ''session-r'')
       (Some [''b'' \<mapsto> 2]) None ''c'' 10 True root_state)) = Some s'"
    by (simp add: family_state_def)
  from hierarchy_link_preserved [OF i g r] l
  have "linked (heap family_state) 1 0" "linked (heap s') 1 0"
    by (simp_all add: family_state_def)
  with i g r0 show ?thesis by simp
qed

section \<open>Session store: reading with the hierarchy\<close>

text \<open>
  C4, amended: a \<^verbatim>\<open>GetSession\<close> call with the hierarchy removes no session and no
  key: every stored state map keeps each key it had, with the same value. It may gain
  keys, since the merged map is written to the stored object; the object returned is
  the object stored under the id.
\<close>

theorem getSessionContext_persists_merge:
  fixes s :: "'v orchestrator"
  assumes "getSessionContext fuel now sessionId True s = Some (r, s')"
  shows "sessions s' = sessions s \<and> length (heap s') = length (heap s)
       \<and> (\<forall>a<length (heap s). s_state (heap s ! a) \<subseteq>\<^sub>m s_state (heap s' ! a))
       \<and> (\<forall>a. r = Some a \<longrightarrow> get_session s' sessionId = Some (a, heap s' ! a))"
proof -
  from getSessionContext_evolves [OF assms]
  have ev: "heap_evolves (heap s) (heap s')" "sessions s' = sessions s"
    "length (heap s') = length (heap s)" by simp_all
  have ret: "get_session s' sessionId = Some (a, heap s' ! a)" if "r = Some a" for a
  proof -
    from assms that have "get_session s sessionId = Some (a, heap s ! a)"
      by (cases fuel) (auto simp add: Let_def get_session_def split: option.splits if_splits)
    with ev show ?thesis
      by (auto simp add: get_session_def split: option.splits if_splits)
  qed
  from ev ret show ?thesis
    by (auto simp add: heap_evolves_def evolves_def)
qed

lemma get_family:
  "getSessionContext (Suc (Suc 0)) 500 ''session-c'' True family_state
     = Some (Some 1, family_state\<lparr> heap :=
         [(new_session ''session-r'' None 0 orchestrator_role (Some [''a'' \<mapsto> 1]) (Some 1) 0)
             \<lparr> s_childSessions := [''session-c''], s_lastAccess := 500 \<rparr>,
          (new_session ''session-c'' (Some ''session-r'') 1 specialist (Some [''b'' \<mapsto> 2]) None 10)
             \<lparr> s_lastAccess := 500, s_state := [''a'' \<mapsto> 1, ''b'' \<mapsto> 2] \<rparr>] \<rparr>)"
  by (simp add: family_state_eq initial_def new_session_def num_or_def
        get_session_def modify_def expired_def Let_def)

theorem getSessionContext_persists_merge_witness:
  "getSessionContext (Suc (Suc 0)) 500 ''session-c'' True family_state \<noteq> None
   \<and> sessions (snd (the (getSessionContext (Suc (Suc 0)) 500 ''session-c'' True family_state)))
       = sessions family_state
   \<and> s_state (heap family_state ! 1)
       \<subseteq>\<^sub>m s_state (heap (snd (the (getSessionContext (Suc (Suc 0)) 500 ''session-c'' True
                                       family_state))) ! 1)
   \<and> fst (the (getSessionContext (Suc (Suc 0)) 500 ''session-c'' True family_state)) = Some 1"
proof -
  have l: "(1::nat) < length (heap family_state)"
    by (simp add: family_state_eq)
  from get_family obtain s' where
    g: "getSessionContext (Suc (Suc 0)) 500 ''session-c'' True family_state = Some (Some 1, s')"
    by blast
  from getSessionContext_persists_merge [OF g]
  have "sessions s' = sessions family_state"
    and "\<forall>a<length (heap family_state).
           s_state (heap family_state ! a) \<subseteq>\<^sub>m s_state (heap s' ! a)"
    by simp_all
  with l have "sessions s' = sessions family_state"
    and "s_state (heap family_state ! 1) \<subseteq>\<^sub>m s_state (heap s' ! 1)"
    by blast+
  then show ?thesis
    unfolding g by simp
qed

lemma maps_differ: "[''a'' \<mapsto> 1::nat, ''b'' \<mapsto> 2] \<noteq> [''b'' \<mapsto> 2]"
proof
  assume "[''a'' \<mapsto> 1::nat, ''b'' \<mapsto> 2] = [''b'' \<mapsto> 2]"
  then have "[''a'' \<mapsto> 1::nat, ''b'' \<mapsto> 2] ''a'' = [''b'' \<mapsto> 2::nat] ''a''"
    by (rule fun_cong)
  then show False by simp
qed

text \<open>
  C4, as stated: \<^verbatim>\<open>GetSession\<close> with the hierarchy leaves the stored state maps as they
  were. The source assigns the merged map to \<^verbatim>\<open>session.state\<close> of the stored object: the
  child of \<open>family_state\<close> has the stored state \<^verbatim>\<open>{b: 2}\<close> before the call and
  \<^verbatim>\<open>{a: 1, b: 2}\<close> after it.
\<close>

theorem getSessionContext_mutates_state_counterexample:
  "s_state (heap family_state ! 1) = [''b'' \<mapsto> 2]
   \<and> s_parentSessionId (heap family_state ! 1) = Some ''session-r''
   \<and> getSessionContext (Suc (Suc 0)) 500 ''session-c'' True family_state \<noteq> None
   \<and> fst (the (getSessionContext (Suc (Suc 0)) 500 ''session-c'' True family_state)) = Some 1
   \<and> s_state (heap (snd (the (getSessionContext (Suc (Suc 0)) 500 ''session-c'' True family_state))) ! 1)
       = [''a'' \<mapsto> 1, ''b'' \<mapsto> 2]
   \<and> s_state (heap (snd (the (getSessionContext (Suc (Suc 0)) 500 ''session-c'' True family_state))) ! 1)
       \<noteq> s_state (heap family_state ! 1)"
proof -
  have a: "s_state (heap family_state ! 1) = [''b'' \<mapsto> 2]"
    "s_parentSessionId (heap family_state ! 1) = Some ''session-r''"
    by (simp_all add: family_state_eq new_session_def)
  show ?thesis
    unfolding get_family a using maps_differ by simp
qed

section \<open>Session store: the expiry sweep\<close>

lemma update_values: "snd ` set (AList.update k v al) \<subseteq> insert v (snd ` set al)"
  by (induct al) auto

lemma createSession_heap_length:
  "length (heap (snd (createSession agentRole parentSessionId initialState ttl tok now store_ok s)))
     = Suc (length (heap s))"
  by (auto simp add: createSession_def Let_def modify_fields split: option.splits)

lemma exec_op_sessions:
  assumes "exec_op x s = Some s'"
  shows "sessions s' =
     (case x of
        CreateSession agentRole parentSessionId initialState ttl tok now store_ok \<Rightarrow>
          AList.update (''session-'' @ tok) (length (heap s)) (sessions s)
      | _ \<Rightarrow> sessions s)"
proof (cases x)
  case (CreateSession x11 x12 x13 x14 x15 x16 x17)
  with assms show ?thesis by (auto simp add: createSession_sessions)
next
  case (GetSessionContext x21 x22 x23 x24)
  with assms show ?thesis using getSessionContext_evolves by fastforce
next
  case (CleanupExpiredSessions x31 x32)
  with assms show ?thesis
    using cleanup_loop_evolves [of s x31 x32 "sessions s" 0]
    by (auto simp add: cleanupExpiredSessions_def)
next
  case (RegisterAgent x41 x42 x43 x44 x45)
  with assms show ?thesis by (auto simp add: registerAgent_def Let_def)
next
  case (ResolveConflict x51 x52 x53 x54 x55 x56 x57)
  with assms show ?thesis
    by (auto simp add: resolveConflict_def Let_def escalateToHuman_def store_conflict_def
          split: if_splits)
next
  case (LearnPattern x61 x62 x63 x64 x65 x66 x67)
  with assms show ?thesis by (auto simp add: learnPattern_def Let_def split: if_splits)
next
  case (ApplyPattern x71 x72 x73)
  with assms show ?thesis
    by (auto simp add: applyPattern_def Let_def split: option.splits sum.splits if_splits)
qed

lemma addrs_ok_same_sessions:
  assumes "addrs_ok s" and "sessions s' = sessions s" and "exec_op x s = Some s'"
  shows "addrs_ok s'"
proof -
  from exec_op_evolves [OF assms(3)] have "length (heap s) \<le> length (heap s')"
    by (simp add: heap_evolves_def)
  with assms(1,2) show ?thesis
    unfolding addrs_ok_def by (auto intro: less_le_trans)
qed

lemma exec_op_addrs_ok:
  assumes "exec_op x s = Some s'" and "addrs_ok s"
  shows "addrs_ok s'"
proof (cases x)
  case (CreateSession agentRole parentSessionId initialState ttl tok now store_ok)
  from assms(1) CreateSession have l: "length (heap s') = Suc (length (heap s))"
    by (auto simp add: createSession_heap_length)
  from exec_op_sessions [OF assms(1)] CreateSession
  have "sessions s' = AList.update (''session-'' @ tok) (length (heap s)) (sessions s)"
    by simp
  with update_values [of "''session-'' @ tok" "length (heap s)" "sessions s"]
  have sub: "snd ` set (sessions s') \<subseteq> insert (length (heap s)) (snd ` set (sessions s))"
    by simp
  have "a < length (heap s')" if "a \<in> snd ` set (sessions s')" for a
  proof -
    from that sub have "a = length (heap s) \<or> a \<in> snd ` set (sessions s)"
      by blast
    with assms(2) l show ?thesis
      unfolding addrs_ok_def by (auto simp add: less_Suc_eq)
  qed
  then show ?thesis
    unfolding addrs_ok_def by blast
next
  case (GetSessionContext x21 x22 x23 x24)
  with exec_op_sessions [OF assms(1)] have "sessions s' = sessions s" by simp
  from addrs_ok_same_sessions [OF assms(2) this assms(1)] show ?thesis .
next
  case (CleanupExpiredSessions x31 x32)
  with exec_op_sessions [OF assms(1)] have "sessions s' = sessions s" by simp
  from addrs_ok_same_sessions [OF assms(2) this assms(1)] show ?thesis .
next
  case (RegisterAgent x41 x42 x43 x44 x45)
  with exec_op_sessions [OF assms(1)] have "sessions s' = sessions s" by simp
  from addrs_ok_same_sessions [OF assms(2) this assms(1)] show ?thesis .
next
  case (ResolveConflict x51 x52 x53 x54 x55 x56 x57)
  with exec_op_sessions [OF assms(1)] have "sessions s' = sessions s" by simp
  from addrs_ok_same_sessions [OF assms(2) this assms(1)] show ?thesis .
next
  case (LearnPattern x61 x62 x63 x64 x65 x66 x67)
  with exec_op_sessions [OF assms(1)] have "sessions s' = sessions s" by simp
  from addrs_ok_same_sessions [OF assms(2) this assms(1)] show ?thesis .
next
  case (ApplyPattern x71 x72 x73)
  with exec_op_sessions [OF assms(1)] have "sessions s' = sessions s" by simp
  from addrs_ok_same_sessions [OF assms(2) this assms(1)] show ?thesis .
qed

lemma run_addrs_ok:
  "run ops s = Some s' \<Longrightarrow> addrs_ok s \<Longrightarrow> addrs_ok s'"
proof (induction ops arbitrary: s)
  case Nil
  then show ?case by simp
next
  case (Cons x xs)
  then show ?case by (auto split: option.splits dest: exec_op_addrs_ok)
qed

lemma reachable_addrs_ok:
  assumes "run ops initial = Some s"
  shows "addrs_ok s"
proof -
  have "addrs_ok initial" by (simp add: addrs_ok_def initial_def)
  with run_addrs_ok [OF assms] show ?thesis .
qed

lemma expired_deactivate: "expired now (x\<lparr> s_isActive := False \<rparr>) = expired now x"
  by (simp add: expired_def)

lemma expired_nth_deactivate:
  "expired now (h[a := (h ! a)\<lparr> s_isActive := False \<rparr>] ! b) = expired now (h ! b)"
proof (cases "a = b \<and> a < length h")
  case True
  then show ?thesis by (simp add: expired_deactivate)
next
  case False
  then show ?thesis by (cases "a = b") (simp_all add: list_update_beyond)
qed

lemma cleanup_loop_all_ok:
  assumes "\<forall>a \<in> snd ` set es. a < length (heap s)"
    and "\<forall>k \<in> fst ` set es. store_ok k"
  shows "fst (cleanup_loop now store_ok es c s)
           = Inr (c + int (length (filter (\<lambda>(k, a). expired now (heap s ! a)) es)))
       \<and> length (heap (snd (cleanup_loop now store_ok es c s))) = length (heap s)
       \<and> (\<forall>b<length (heap s).
             heap (snd (cleanup_loop now store_ok es c s)) ! b
               = (if b \<in> snd ` set es \<and> expired now (heap s ! b)
                  then (heap s ! b)\<lparr> s_isActive := False \<rparr> else heap s ! b))"
  using assms
proof (induction es arbitrary: c s)
  case Nil
  then show ?case by simp
next
  case (Cons e es)
  obtain k a where e: "e = (k, a)" by (cases e)
  from Cons.prems e have a: "a < length (heap s)" and ok: "store_ok k"
    and rest: "\<forall>a \<in> snd ` set es. a < length (heap s)" "\<forall>k \<in> fst ` set es. store_ok k"
    by auto
  show ?case
  proof (cases "expired now (heap s ! a)")
    case False
    with a e Cons.IH [OF rest, of c] show ?thesis
      by auto
  next
    case True
    let ?s1 = "(modify a (\<lambda>x. x\<lparr> s_isActive := False \<rparr>) s)
                 \<lparr> sessionHierarchy := AList.delete k (sessionHierarchy s) \<rparr>"
    have h1: "heap ?s1 = (heap s)[a := (heap s ! a)\<lparr> s_isActive := False \<rparr>]"
      by (simp add: modify_def)
    have len1: "length (heap ?s1) = length (heap s)"
      by (simp add: h1)
    have exp1: "expired now (heap ?s1 ! b) = expired now (heap s ! b)" for b
      unfolding h1 by (rule expired_nth_deactivate)
    have rest1: "\<forall>a \<in> snd ` set es. a < length (heap ?s1)"
      using rest(1) by (simp only: len1)
    have step: "cleanup_loop now store_ok (e # es) c s = cleanup_loop now store_ok es (c + 1) ?s1"
      using True a ok by (simp add: e Let_def)
    note ih = Cons.IH [OF rest1 rest(2), of "c + 1"]
    have cnt: "filter (\<lambda>(k, a). expired now (heap ?s1 ! a)) es
                 = filter (\<lambda>(k, a). expired now (heap s ! a)) es"
      by (simp only: exp1)
    have c1: "fst (cleanup_loop now store_ok (e # es) c s)
           = Inr (c + int (length (filter (\<lambda>(k, a). expired now (heap s ! a)) (e # es))))"
      using ih True by (simp only: step cnt) (simp add: e)
    have c2: "length (heap (snd (cleanup_loop now store_ok (e # es) c s))) = length (heap s)"
      using ih by (simp only: step len1)
    have c3: "heap (snd (cleanup_loop now store_ok (e # es) c s)) ! b
               = (if b \<in> snd ` set (e # es) \<and> expired now (heap s ! b)
                  then (heap s ! b)\<lparr> s_isActive := False \<rparr> else heap s ! b)"
      if b: "b < length (heap s)" for b
    proof -
      from ih b have "heap (snd (cleanup_loop now store_ok es (c + 1) ?s1)) ! b
               = (if b \<in> snd ` set es \<and> expired now (heap ?s1 ! b)
                  then (heap ?s1 ! b)\<lparr> s_isActive := False \<rparr> else heap ?s1 ! b)"
        by (simp only: len1)
      then have "heap (snd (cleanup_loop now store_ok (e # es) c s)) ! b
               = (if b \<in> snd ` set es \<and> expired now (heap s ! b)
                  then (heap ?s1 ! b)\<lparr> s_isActive := False \<rparr> else heap ?s1 ! b)"
        by (simp only: step exp1)
      also have "\<dots> = (if b \<in> snd ` set (e # es) \<and> expired now (heap s ! b)
                  then (heap s ! b)\<lparr> s_isActive := False \<rparr> else heap s ! b)"
        using True a b by (cases "b = a") (simp_all add: h1 e)
      finally show ?thesis .
    qed
    from c1 c2 c3 show ?thesis by blast
  qed
qed

text \<open>
  C6, amended: in a sweep whose audit writes all succeed, every stored session with
  \<open>now - createdAt > ttl * 1000\<close> is inactive afterwards and is otherwise unchanged, every
  other session object is unchanged, no session is removed from the session map, and the
  count returned is the number of stored sessions with \<open>now - createdAt > ttl * 1000\<close>,
  whether they were active or not. Every address of the session map is allocated
  (\<open>reachable_addrs_ok\<close>: this holds in every state a run reaches from the initial one).
\<close>

theorem cleanupExpiredSessions_sweep:
  fixes s :: "'v orchestrator"
  assumes "addrs_ok s" and "\<forall>k \<in> fst ` set (sessions s). store_ok k"
  shows "fst (cleanupExpiredSessions now store_ok s)
           = Inr (int (length (filter (\<lambda>(k, a). expired now (heap s ! a)) (sessions s))))
       \<and> sessions (snd (cleanupExpiredSessions now store_ok s)) = sessions s
       \<and> length (heap (snd (cleanupExpiredSessions now store_ok s))) = length (heap s)
       \<and> (\<forall>b<length (heap s).
             heap (snd (cleanupExpiredSessions now store_ok s)) ! b
               = (if b \<in> snd ` set (sessions s) \<and> expired now (heap s ! b)
                  then (heap s ! b)\<lparr> s_isActive := False \<rparr> else heap s ! b))"
proof -
  from assms(1) have a: "\<forall>a \<in> snd ` set (sessions s). a < length (heap s)"
    by (simp add: addrs_ok_def)
  from cleanup_loop_all_ok [OF a assms(2), of now 0]
    cleanup_loop_evolves [of s now store_ok "sessions s" 0]
  show ?thesis
    by (simp add: cleanupExpiredSessions_def)
qed

text \<open>
  C6, as stated: the count returned is the number of sessions the run switched from
  active to inactive, sessions already inactive not being counted again. The loop has no
  test of \<^verbatim>\<open>isActive\<close>: on the store whose only session a first sweep has already switched,
  a second sweep returns \<open>1\<close> and changes nothing.
\<close>

theorem cleanupExpiredSessions_recount_counterexample:
  "sessions swept_state = [(''session-r'', 0)]
   \<and> \<not> s_isActive (heap swept_state ! 0)
   \<and> cleanupExpiredSessions 6000 all_ok swept_state = (Inr 1, swept_state)"
  by (simp add: swept_state_eq cleanupExpiredSessions_def initial_def expired_def
        new_session_def modify_def num_or_def Let_def all_ok_def)

theorem cleanupExpiredSessions_sweep_witness:
  "addrs_ok family_state
   \<and> all_ok ''session-r'' \<and> all_ok ''session-c''
   \<and> fst (cleanupExpiredSessions 5000 all_ok family_state) = Inr 1
   \<and> sessions (snd (cleanupExpiredSessions 5000 all_ok family_state))
       = [(''session-r'', 0), (''session-c'', 1)]
   \<and> \<not> s_isActive (heap (snd (cleanupExpiredSessions 5000 all_ok family_state)) ! 0)
   \<and> s_isActive (heap (snd (cleanupExpiredSessions 5000 all_ok family_state)) ! 1)"
proof -
  have a: "addrs_ok family_state"
    by (simp add: addrs_ok_def family_state_eq)
  have o: "\<forall>k \<in> fst ` set (sessions family_state). all_ok k"
    by (simp add: all_ok_def)
  have e: "expired 5000 (heap family_state ! 0)" "\<not> expired 5000 (heap family_state ! 1)"
    "s_isActive (heap family_state ! 1)"
    "sessions family_state = [(''session-r'', 0), (''session-c'', 1)]"
    "length (heap family_state) = 2"
    by (simp_all add: family_state_eq expired_def new_session_def num_or_def)
  note sw = cleanupExpiredSessions_sweep [OF a o, of 5000]
  from sw e have r: "fst (cleanupExpiredSessions 5000 all_ok family_state) = Inr 1"
    "sessions (snd (cleanupExpiredSessions 5000 all_ok family_state))
       = [(''session-r'', 0), (''session-c'', 1)]"
    by simp_all
  from sw e have h: "\<forall>b<2. heap (snd (cleanupExpiredSessions 5000 all_ok family_state)) ! b
      = (if b \<in> snd ` set (sessions family_state) \<and> expired 5000 (heap family_state ! b)
         then (heap family_state ! b)\<lparr> s_isActive := False \<rparr> else heap family_state ! b)"
    by simp
  from h have "heap (snd (cleanupExpiredSessions 5000 all_ok family_state)) ! 0
      = (heap family_state ! 0)\<lparr> s_isActive := False \<rparr>"
    and "heap (snd (cleanupExpiredSessions 5000 all_ok family_state)) ! 1
      = heap family_state ! 1"
    using e by simp_all
  with r a e(3) show ?thesis
    by (simp add: all_ok_def)
qed

section \<open>Session store: the state returned with the hierarchy\<close>

lemma get_session_SomeD:
  assumes "get_session s k = Some (a, x)"
  shows "k \<in> fst ` set (sessions s)" and "a < length (heap s)" and "x = heap s ! a"
    and "map_of (sessions s) k = Some a"
proof -
  from assms have m: "map_of (sessions s) k = Some a" and a: "a < length (heap s)"
    and x: "x = heap s ! a"
    by (auto simp add: get_session_def split: option.splits if_splits)
  from m have "(k, a) \<in> set (sessions s)" by (rule map_of_SomeD)
  then show "k \<in> fst ` set (sessions s)" by (rule rev_image_eqI) simp
  from m a x show "a < length (heap s)" "x = heap s ! a" "map_of (sessions s) k = Some a"
    by simp_all
qed

lemma hierarchy_okD:
  assumes "hierarchy_ok s" and "get_session s k = Some (a, x)"
    and "s_parentSessionId x = Some pid" and "pid \<noteq> []"
    and "get_session s pid = Some (pa, p)"
  shows "s_hierarchyLevel p < s_hierarchyLevel x"
proof -
  from get_session_SomeD(1) [OF assms(2)] assms(1)
  have "case get_session s k of
          None \<Rightarrow> True
        | Some (a, x) \<Rightarrow>
            (case parent_ref s (s_parentSessionId x) of
               None \<Rightarrow> True
             | Some (pa, p) \<Rightarrow>
                 truthy (s_parentSessionId x) \<longrightarrow> s_hierarchyLevel p < s_hierarchyLevel x)"
    unfolding hierarchy_ok_def by blast
  with assms(2-5) show ?thesis
    by (simp add: parent_ref_def)
qed

lemma get_session_modify:
  "get_session (modify a f s) k =
     (case get_session s k of
        None \<Rightarrow> None
      | Some (b, y) \<Rightarrow> Some (b, if b = a then f y else y))"
  by (auto simp add: get_session_def modify_def split: option.splits)

lemma hierarchy_ok_modify:
  assumes "hierarchy_ok s"
    and "\<And>x. s_hierarchyLevel (f x) = s_hierarchyLevel x"
    and "\<And>x. s_parentSessionId (f x) = s_parentSessionId x"
  shows "hierarchy_ok (modify a f s)"
  unfolding hierarchy_ok_def
proof
  fix k
  assume "k \<in> fst ` set (sessions (modify a f s))"
  show "case get_session (modify a f s) k of
          None \<Rightarrow> True
        | Some (b, x) \<Rightarrow>
            (case parent_ref (modify a f s) (s_parentSessionId x) of
               None \<Rightarrow> True
             | Some (pa, p) \<Rightarrow>
                 truthy (s_parentSessionId x) \<longrightarrow> s_hierarchyLevel p < s_hierarchyLevel x)"
  proof (cases "get_session s k")
    case None
    then show ?thesis by (simp add: get_session_modify)
  next
    case (Some bx)
    obtain b x where bx: "bx = (b, x)" by (cases bx)
    show ?thesis
    proof (cases "s_parentSessionId x")
      case None
      with Some bx show ?thesis
        by (simp add: get_session_modify parent_ref_def assms(3))
    next
      case pid: (Some pid)
      show ?thesis
      proof (cases "get_session s pid")
        case None
        with Some bx pid show ?thesis
          by (simp add: get_session_modify parent_ref_def assms(3))
      next
        case pp: (Some pp)
        obtain pa p where p: "pp = (pa, p)" by (cases pp)
        have "pid \<noteq> [] \<Longrightarrow> s_hierarchyLevel p < s_hierarchyLevel x"
          using hierarchy_okD [OF assms(1)] Some bx pid pp p by blast
        with Some bx pid pp p show ?thesis
          by (simp add: get_session_modify parent_ref_def assms(2,3))
      qed
    qed
  qed
qed

lemma getSessionContext_not_found:
  assumes "get_session s k = None"
    and "getSessionContext fuel now k inc s = Some (r, s')"
  shows "r = None \<and> s' = s"
  using assms by (cases fuel) simp_all

lemma hierarchy_merge_touch:
  "hierarchy_merge n now (modify a (\<lambda>x. x\<lparr> s_lastAccess := t \<rparr>) s) k
     = hierarchy_merge n now s k"
proof (induction n arbitrary: k)
  case 0
  then show ?case by simp
next
  case (Suc n)
  show ?case
  proof (cases "get_session s k")
    case None
    then show ?thesis by (simp add: get_session_modify)
  next
    case (Some bx)
    obtain b x where bx: "bx = (b, x)" by (cases bx)
    with Some Suc.IH show ?thesis
      by (simp add: get_session_modify expired_def split: option.splits)
  qed
qed

lemma getSessionContext_frame:
  assumes "hierarchy_ok s"
    and "getSessionContext fuel now k inc s = Some (r, s')"
    and "get_session s k = Some (a, x)"
    and "s_hierarchyLevel x < s_hierarchyLevel (heap s ! b)"
  shows "heap s' ! b = heap s ! b"
  using assms
proof (induction fuel arbitrary: k inc s r s' a x)
  case 0
  then show ?case by simp
next
  case (Suc fuel)
  note ok = Suc.prems(1) and run = Suc.prems(2) and g = Suc.prems(3) and lv = Suc.prems(4)
  from get_session_SomeD [OF g] have a: "a < length (heap s)" and x: "x = heap s ! a"
    by simp_all
  from lv x have ba: "b \<noteq> a" by auto
  let ?s1 = "modify a (\<lambda>x. x\<lparr> s_lastAccess := now \<rparr>) s"
  have b1: "heap ?s1 ! b = heap s ! b"
    using ba by (simp add: modify_def)
  have ok1: "hierarchy_ok ?s1"
    by (rule hierarchy_ok_modify [OF ok]) simp_all
  have nb: "heap (modify a f t) ! b = heap t ! b" for f and t :: "'a orchestrator"
    using ba by (simp add: modify_def)
  show ?case
  proof (cases "expired now x")
    case True
    with run g have "s' = modify a (\<lambda>x. x\<lparr> s_isActive := False \<rparr>) ?s1"
      by (simp add: Let_def)
    then show ?thesis by (simp add: nb)
  next
    case notexp: False
    show ?thesis
    proof (cases "\<exists>pid. s_parentSessionId x = Some pid \<and> inc \<and> pid \<noteq> []")
      case False
      with run g notexp have "s' = ?s1"
        by (auto simp add: Let_def split: option.splits if_splits)
      then show ?thesis by (simp add: nb)
    next
      case True
      then obtain pid where pid: "s_parentSessionId x = Some pid" "inc" "pid \<noteq> []"
        by blast
      from run g notexp pid
      obtain rp s2 where rec: "getSessionContext fuel now pid True ?s1 = Some (rp, s2)"
        by (auto simp add: Let_def split: option.splits)
      have s2b: "heap s2 ! b = heap s ! b"
      proof (cases "get_session ?s1 pid")
        case None
        from getSessionContext_not_found [OF None rec] have "s2 = ?s1" by simp
        then show ?thesis by (simp add: nb)
      next
        case (Some pp)
        obtain pa p1 where pp: "pp = (pa, p1)" by (cases pp)
        from Some pp obtain p where p: "get_session s pid = Some (pa, p)"
          and p1: "s_hierarchyLevel p1 = s_hierarchyLevel p"
          by (auto simp add: get_session_modify split: option.splits if_splits)
        from hierarchy_okD [OF ok g pid(1) pid(3) p] have "s_hierarchyLevel p < s_hierarchyLevel x" .
        with lv p1 have lv1: "s_hierarchyLevel p1 < s_hierarchyLevel (heap ?s1 ! b)"
          by (simp add: b1)
        from Some pp have g1: "get_session ?s1 pid = Some (pa, p1)" by simp
        from Suc.IH [OF ok1 rec g1 lv1] b1 show ?thesis by simp
      qed
      show ?thesis
      proof (cases rp)
        case None
        with run g notexp pid rec have "s' = s2" by (simp add: Let_def)
        with s2b show ?thesis by simp
      next
        case (Some pa)
        with run g notexp pid rec
        have "s' = modify a (\<lambda>x. x\<lparr> s_state := s_state (heap s2 ! pa) ++ s_state x \<rparr>) s2"
          by (simp add: Let_def)
        with s2b show ?thesis by (simp add: nb)
      qed
    qed
  qed
qed

text \<open>
  C8, amended: when the levels of the stored sessions decrease along the parent links, a
  \<^verbatim>\<open>GetSession\<close> call with the hierarchy on a stored session returns (with fuel above the
  level of the session), and the state map of the session returned is the root-to-leaf
  merge along its chain of parents, taken up to the first expired session or missing
  parent: for a shared key the descendant's value wins, and every key of the session
  itself keeps its value. A session that has expired is returned with its stored state,
  unmerged. For a live root with state \<^verbatim>\<open>{a: 1}\<close> the result is \<^verbatim>\<open>{a: 1, b: 2}\<close> with a
  child of state \<^verbatim>\<open>{b: 2}\<close> and \<^verbatim>\<open>{a: 3}\<close> with a child of state \<^verbatim>\<open>{a: 3}\<close>.
\<close>

theorem getSessionContext_hierarchy_merge:
  fixes s :: "'v orchestrator"
  assumes "hierarchy_ok s"
    and "get_session s k = Some (a, x)"
    and "s_hierarchyLevel x + 2 \<le> fuel"
  shows "\<exists>s'. getSessionContext fuel now k True s = Some (Some a, s')
            \<and> s_state (heap s' ! a) = hierarchy_merge fuel now s k
            \<and> s_state x \<subseteq>\<^sub>m s_state (heap s' ! a)
            \<and> (expired now x \<longrightarrow> s_state (heap s' ! a) = s_state x)"
  using assms
proof (induction fuel arbitrary: k a x s)
  case 0
  then show ?case by simp
next
  case (Suc n)
  note ok = Suc.prems(1) and g = Suc.prems(2) and fu = Suc.prems(3)
  from get_session_SomeD [OF g] have a: "a < length (heap s)" and x: "x = heap s ! a"
    by simp_all
  let ?s1 = "modify a (\<lambda>x. x\<lparr> s_lastAccess := now \<rparr>) s"
  have h1: "heap ?s1 ! a = x\<lparr> s_lastAccess := now \<rparr>" "length (heap ?s1) = length (heap s)"
    using a x by (simp_all add: modify_def)
  have ok1: "hierarchy_ok ?s1"
    by (rule hierarchy_ok_modify [OF ok]) simp_all
  show ?case
  proof (cases "expired now x")
    case True
    with g a x show ?thesis
      by (simp add: Let_def modify_def)
  next
    case notexp: False
    show ?thesis
    proof (cases "\<exists>pid. s_parentSessionId x = Some pid \<and> pid \<noteq> []")
      case False
      with g notexp a x show ?thesis
        by (auto simp add: Let_def modify_def split: option.splits)
    next
      case True
      then obtain pid where pid: "s_parentSessionId x = Some pid" "pid \<noteq> []"
        by blast
      from fu obtain m where n: "n = Suc m" by (cases n) auto
      show ?thesis
      proof (cases "get_session s pid")
        case None
        then have "get_session ?s1 pid = None" by (simp add: get_session_modify)
        then have "getSessionContext n now pid True ?s1 = Some (None, ?s1)"
          by (simp add: n)
        with g notexp pid None h1 show ?thesis
          by (simp add: Let_def n)
      next
        case (Some pp)
        obtain pa p where pp: "pp = (pa, p)" by (cases pp)
        from Some pp have gp: "get_session s pid = Some (pa, p)" by simp
        from hierarchy_okD [OF ok g pid gp] have lt: "s_hierarchyLevel p < s_hierarchyLevel x" .
        from get_session_SomeD [OF gp] have p: "p = heap s ! pa" by simp
        from lt x p have pa_a: "pa \<noteq> a" by auto
        from gp pa_a have gp1: "get_session ?s1 pid = Some (pa, p)"
          by (simp add: get_session_modify)
        from lt fu have fu1: "s_hierarchyLevel p + 2 \<le> n" by simp
        from Suc.IH [OF ok1 gp1 fu1]
        obtain s2 where rec: "getSessionContext n now pid True ?s1 = Some (Some pa, s2)"
          and st: "s_state (heap s2 ! pa) = hierarchy_merge n now ?s1 pid"
          by blast
        have g1: "get_session ?s1 k = Some (a, x\<lparr> s_lastAccess := now \<rparr>)"
          using g by (simp add: get_session_modify)
        from lt have "s_hierarchyLevel p < s_hierarchyLevel (heap ?s1 ! a)"
          by (simp add: h1)
        from getSessionContext_frame [OF ok1 rec gp1 this]
        have own: "heap s2 ! a = x\<lparr> s_lastAccess := now \<rparr>"
          by (simp add: h1)
        from getSessionContext_evolves [OF rec] have len2: "length (heap s2) = length (heap s)"
          by (simp add: h1)
        let ?s' = "modify a (\<lambda>x. x\<lparr> s_state := s_state (heap s2 ! pa) ++ s_state x \<rparr>) s2"
        have res: "getSessionContext (Suc n) now k True s = Some (Some a, ?s')"
          using g notexp pid rec by (simp add: Let_def)
        have "s_state (heap ?s' ! a) = s_state (heap s2 ! pa) ++ s_state x"
          using a len2 own by (simp add: modify_def)
        also have "\<dots> = hierarchy_merge n now s pid ++ s_state x"
          by (simp add: st hierarchy_merge_touch)
        also have "\<dots> = hierarchy_merge (Suc n) now s k"
          using g notexp pid by simp
        finally have m: "s_state (heap ?s' ! a) = hierarchy_merge (Suc n) now s k" .
        have "s_state x \<subseteq>\<^sub>m s_state (heap ?s' ! a)"
          using a len2 own by (simp add: modify_def)
        with res m notexp show ?thesis by blast
      qed
    qed
  qed
qed

lemma override_state_eq:
  "override_state = initial\<lparr>
      heap := [(new_session ''session-r'' None 0 orchestrator_role (Some [''a'' \<mapsto> 1]) (Some 1) 0)
                 \<lparr> s_childSessions := [''session-c''] \<rparr>,
               new_session ''session-c'' (Some ''session-r'') 1 specialist (Some [''a'' \<mapsto> 3]) None 10],
      sessions := [(''session-r'', 0), (''session-c'', 1)],
      sessionHierarchy := [(''session-r'', 0), (''session-c'', 1)] \<rparr>"
  by (simp add: override_state_def root_state_eq createSession_def Let_def initial_def
        parent_ref_def get_session_def modify_def num_or_def new_session_def)

lemma short_family_state_eq:
  "short_family_state = initial\<lparr>
      heap := [(new_session ''session-r'' None 0 orchestrator_role (Some [''a'' \<mapsto> 1]) (Some 1) 0)
                 \<lparr> s_childSessions := [''session-c''] \<rparr>,
               new_session ''session-c'' (Some ''session-r'') 1 specialist (Some [''b'' \<mapsto> 2]) (Some 1) 10],
      sessions := [(''session-r'', 0), (''session-c'', 1)],
      sessionHierarchy := [(''session-r'', 0), (''session-c'', 1)] \<rparr>"
  by (simp add: short_family_state_def root_state_eq createSession_def Let_def initial_def
        parent_ref_def get_session_def modify_def num_or_def new_session_def)

lemma get_short_family:
  "getSessionContext (Suc (Suc 0)) 5000 ''session-c'' True short_family_state
     = Some (Some 1, short_family_state\<lparr> heap :=
         [(new_session ''session-r'' None 0 orchestrator_role (Some [''a'' \<mapsto> 1]) (Some 1) 0)
             \<lparr> s_childSessions := [''session-c''] \<rparr>,
          (new_session ''session-c'' (Some ''session-r'') 1 specialist (Some [''b'' \<mapsto> 2]) (Some 1) 10)
             \<lparr> s_lastAccess := 5000, s_isActive := False \<rparr>] \<rparr>)"
  by (simp add: short_family_state_eq initial_def new_session_def num_or_def
        get_session_def modify_def expired_def Let_def)

text \<open>
  C8, as stated: every \<^verbatim>\<open>GetSession\<close> call with the hierarchy returns the root-to-leaf
  merge. The TTL test comes before the merge and returns the session as it is stored:
  the child with state \<^verbatim>\<open>{b: 2}\<close> of a root with state \<^verbatim>\<open>{a: 1}\<close>, read after its TTL has
  passed, is returned with the state \<^verbatim>\<open>{b: 2}\<close>, not \<^verbatim>\<open>{a: 1, b: 2}\<close>.
\<close>

theorem getSessionContext_expired_unmerged_counterexample:
  "s_state (heap short_family_state ! 0) = [''a'' \<mapsto> 1]
   \<and> s_state (heap short_family_state ! 1) = [''b'' \<mapsto> 2]
   \<and> s_parentSessionId (heap short_family_state ! 1) = Some ''session-r''
   \<and> sessions short_family_state = [(''session-r'', 0), (''session-c'', 1)]
   \<and> getSessionContext (Suc (Suc 0)) 5000 ''session-c'' True short_family_state \<noteq> None
   \<and> fst (the (getSessionContext (Suc (Suc 0)) 5000 ''session-c'' True short_family_state)) = Some 1
   \<and> s_state (heap (snd (the (getSessionContext (Suc (Suc 0)) 5000 ''session-c'' True
                               short_family_state))) ! 1) = [''b'' \<mapsto> 2]
   \<and> s_state (heap (snd (the (getSessionContext (Suc (Suc 0)) 5000 ''session-c'' True
                               short_family_state))) ! 1) \<noteq> [''a'' \<mapsto> 1, ''b'' \<mapsto> 2]"
proof -
  have a: "s_state (heap short_family_state ! 0) = [''a'' \<mapsto> 1]"
    "s_state (heap short_family_state ! 1) = [''b'' \<mapsto> 2]"
    "s_parentSessionId (heap short_family_state ! 1) = Some ''session-r''"
    "sessions short_family_state = [(''session-r'', 0), (''session-c'', 1)]"
    by (simp_all add: short_family_state_eq new_session_def)
  have r: "s_state (heap (snd (the (getSessionContext (Suc (Suc 0)) 5000 ''session-c'' True
                               short_family_state))) ! 1) = [''b'' \<mapsto> 2]"
    unfolding get_short_family by (simp add: new_session_def)
  have n: "getSessionContext (Suc (Suc 0)) 5000 ''session-c'' True short_family_state \<noteq> None"
    "fst (the (getSessionContext (Suc (Suc 0)) 5000 ''session-c'' True short_family_state)) = Some 1"
    unfolding get_short_family by simp_all
  from maps_differ have d: "[''b'' \<mapsto> 2::nat] \<noteq> [''a'' \<mapsto> 1, ''b'' \<mapsto> 2]"
    by (rule not_sym)
  from a r n d show ?thesis
    by (simp only: simp_thms)
qed

lemma hierarchy_ok_family: "hierarchy_ok family_state"
  by (simp add: hierarchy_ok_def family_state_eq get_session_def parent_ref_def new_session_def)

lemma hierarchy_ok_override: "hierarchy_ok override_state"
  by (simp add: hierarchy_ok_def override_state_eq get_session_def parent_ref_def new_session_def)

lemma hierarchy_ok_short_family: "hierarchy_ok short_family_state"
  by (simp add: hierarchy_ok_def short_family_state_eq get_session_def parent_ref_def
        new_session_def)

theorem getSessionContext_hierarchy_merge_witness:
  "hierarchy_ok family_state \<and> hierarchy_ok override_state
   \<and> map_option fst (get_session family_state ''session-c'') = Some 1
   \<and> map_option fst (get_session override_state ''session-c'') = Some 1
   \<and> s_hierarchyLevel (heap family_state ! 1) + 2 \<le> Suc (Suc (Suc 0))
   \<and> s_hierarchyLevel (heap override_state ! 1) + 2 \<le> Suc (Suc (Suc 0))
   \<and> s_state (heap family_state ! 0) = [''a'' \<mapsto> 1]
   \<and> s_state (heap family_state ! 1) = [''b'' \<mapsto> 2]
   \<and> s_state (heap override_state ! 0) = [''a'' \<mapsto> 1]
   \<and> s_state (heap override_state ! 1) = [''a'' \<mapsto> 3]
   \<and> fst (the (getSessionContext (Suc (Suc (Suc 0))) 500 ''session-c'' True family_state)) = Some 1
   \<and> s_state (heap (snd (the (getSessionContext (Suc (Suc (Suc 0))) 500 ''session-c'' True
                               family_state))) ! 1) = [''a'' \<mapsto> 1, ''b'' \<mapsto> 2]
   \<and> fst (the (getSessionContext (Suc (Suc (Suc 0))) 500 ''session-c'' True override_state)) = Some 1
   \<and> s_state (heap (snd (the (getSessionContext (Suc (Suc (Suc 0))) 500 ''session-c'' True
                               override_state))) ! 1) = [''a'' \<mapsto> 3]
   \<and> hierarchy_ok short_family_state
   \<and> map_option fst (get_session short_family_state ''session-c'') = Some 1
   \<and> expired 5000 (heap short_family_state ! 1)
   \<and> s_state (heap short_family_state ! 1) = [''b'' \<mapsto> 2]
   \<and> s_state (heap (snd (the (getSessionContext (Suc (Suc (Suc 0))) 5000 ''session-c'' True
                               short_family_state))) ! 1) = [''b'' \<mapsto> 2]"
proof -
  have gs: "get_session short_family_state ''session-c''
      = Some (1, new_session ''session-c'' (Some ''session-r'') 1 specialist (Some [''b'' \<mapsto> 2])
                   (Some 1) 10)"
    by (simp add: short_family_state_eq get_session_def)
  have ls: "s_hierarchyLevel (new_session ''session-c'' (Some ''session-r'') 1 specialist
              (Some [''b'' \<mapsto> 2::nat]) (Some 1) 10) + 2 \<le> Suc (Suc (Suc 0))"
    by (simp add: new_session_def)
  have es: "expired 5000 (new_session ''session-c'' (Some ''session-r'') 1 specialist
              (Some [''b'' \<mapsto> 2::nat]) (Some 1) 10)"
    by (simp add: new_session_def expired_def num_or_def)
  from getSessionContext_hierarchy_merge [OF hierarchy_ok_short_family gs ls, of 5000] es
  obtain ss where
    sh: "getSessionContext (Suc (Suc (Suc 0))) 5000 ''session-c'' True short_family_state
           = Some (Some 1, ss)"
    "s_state (heap ss ! 1) = [''b'' \<mapsto> 2]"
    by (auto simp add: new_session_def)
  have sst: "expired 5000 (heap short_family_state ! 1)"
    "s_state (heap short_family_state ! 1) = [''b'' \<mapsto> 2]"
    using es by (simp_all add: short_family_state_eq new_session_def)
  have gf: "get_session family_state ''session-c''
      = Some (1, new_session ''session-c'' (Some ''session-r'') 1 specialist (Some [''b'' \<mapsto> 2]) None 10)"
    by (simp add: family_state_eq get_session_def)
  have go: "get_session override_state ''session-c''
      = Some (1, new_session ''session-c'' (Some ''session-r'') 1 specialist (Some [''a'' \<mapsto> 3]) None 10)"
    by (simp add: override_state_eq get_session_def)
  have lf: "s_hierarchyLevel (new_session ''session-c'' (Some ''session-r'') 1 specialist
              (Some [''b'' \<mapsto> 2::nat]) None 10) + 2 \<le> Suc (Suc (Suc 0))"
    and lo: "s_hierarchyLevel (new_session ''session-c'' (Some ''session-r'') 1 specialist
              (Some [''a'' \<mapsto> 3::nat]) None 10) + 2 \<le> Suc (Suc (Suc 0))"
    by (simp_all add: new_session_def)
  have mf: "hierarchy_merge (Suc (Suc (Suc 0))) 500 family_state ''session-c''
              = [''a'' \<mapsto> 1, ''b'' \<mapsto> 2]"
    by (simp add: family_state_eq get_session_def new_session_def expired_def num_or_def)
  have mo: "hierarchy_merge (Suc (Suc (Suc 0))) 500 override_state ''session-c''
              = [''a'' \<mapsto> 3]"
    by (simp add: override_state_eq get_session_def new_session_def expired_def num_or_def)
  from getSessionContext_hierarchy_merge [OF hierarchy_ok_family gf lf, of 500]
  obtain sf where
    f: "getSessionContext (Suc (Suc (Suc 0))) 500 ''session-c'' True family_state = Some (Some 1, sf)"
    "s_state (heap sf ! 1) = [''a'' \<mapsto> 1, ''b'' \<mapsto> 2]"
    unfolding mf by blast
  from getSessionContext_hierarchy_merge [OF hierarchy_ok_override go lo, of 500]
  obtain so where
    o: "getSessionContext (Suc (Suc (Suc 0))) 500 ''session-c'' True override_state = Some (Some 1, so)"
    "s_state (heap so ! 1) = [''a'' \<mapsto> 3]"
    unfolding mo by blast
  have st: "s_hierarchyLevel (heap family_state ! 1) + 2 \<le> Suc (Suc (Suc 0))"
    "s_hierarchyLevel (heap override_state ! 1) + 2 \<le> Suc (Suc (Suc 0))"
    "s_state (heap family_state ! 0) = [''a'' \<mapsto> 1]"
    "s_state (heap family_state ! 1) = [''b'' \<mapsto> 2]"
    "s_state (heap override_state ! 0) = [''a'' \<mapsto> 1]"
    "s_state (heap override_state ! 1) = [''a'' \<mapsto> 3]"
    by (simp_all add: family_state_eq override_state_eq new_session_def)
  show ?thesis
    unfolding f o sh
    using hierarchy_ok_family hierarchy_ok_override hierarchy_ok_short_family gf go gs st sst
      f(2) o(2) sh(2)
    by simp
qed

section \<open>Session store: sessions by id\<close>

text \<open>
  The same facts by session id: as long as no later \<^verbatim>\<open>createSession\<close> draws the id of a
  stored session again, the id names the same object, and an inactive session stays
  inactive under its id.
\<close>

lemma exec_op_keeps_id:
  assumes "exec_op x s = Some s'" and "creates x \<noteq> Some k"
  shows "map_of (sessions s') k = map_of (sessions s) k"
proof (cases x)
  case (CreateSession x11 x12 x13 x14 x15 x16 x17)
  with exec_op_sessions [OF assms(1)] assms(2) show ?thesis
    by (simp add: update_conv')
next
  case (GetSessionContext x21 x22 x23 x24)
  with exec_op_sessions [OF assms(1)] show ?thesis by simp
next
  case (CleanupExpiredSessions x31 x32)
  with exec_op_sessions [OF assms(1)] show ?thesis by simp
next
  case (RegisterAgent x41 x42 x43 x44 x45)
  with exec_op_sessions [OF assms(1)] show ?thesis by simp
next
  case (ResolveConflict x51 x52 x53 x54 x55 x56 x57)
  with exec_op_sessions [OF assms(1)] show ?thesis by simp
next
  case (LearnPattern x61 x62 x63 x64 x65 x66 x67)
  with exec_op_sessions [OF assms(1)] show ?thesis by simp
next
  case (ApplyPattern x71 x72 x73)
  with exec_op_sessions [OF assms(1)] show ?thesis by simp
qed

lemma run_keeps_id:
  "run ops s = Some s' \<Longrightarrow> \<forall>x \<in> set ops. creates x \<noteq> Some k
     \<Longrightarrow> map_of (sessions s') k = map_of (sessions s) k"
proof (induction ops arbitrary: s)
  case Nil
  then show ?case by simp
next
  case (Cons x xs)
  from Cons.prems(1) obtain s1 where s1: "exec_op x s = Some s1" and r: "run xs s1 = Some s'"
    by (auto split: option.splits)
  from Cons.prems(2) have c: "creates x \<noteq> Some k" and cs: "\<forall>x \<in> set xs. creates x \<noteq> Some k"
    by simp_all
  from Cons.IH [OF r cs] exec_op_keeps_id [OF s1 c] show ?case by simp
qed

lemma inactive_by_id:
  fixes s :: "'v orchestrator" and ops :: "'v operation list"
  assumes "get_session s k = Some (a, x)" and "\<not> s_isActive x"
    and "run ops s = Some s'" and "\<forall>x \<in> set ops. creates x \<noteq> Some k"
  shows "\<exists>x'. get_session s' k = Some (a, x') \<and> \<not> s_isActive x'"
proof -
  from get_session_SomeD [OF assms(1)] have a: "a < length (heap s)" and x: "x = heap s ! a"
    and m: "map_of (sessions s) k = Some a" by simp_all
  from run_evolves [OF assms(3)] a x assms(2)
  have "a < length (heap s')" "\<not> s_isActive (heap s' ! a)"
    by (auto simp add: heap_evolves_def evolves_def)
  moreover from run_keeps_id [OF assms(3,4)] m have "map_of (sessions s') k = Some a"
    by simp
  ultimately show ?thesis
    by (simp add: get_session_def)
qed

section \<open>Pattern store: rates over runs\<close>

text \<open>
  In every state that a run reaches from the constructor's state, every stored pattern has
  a \<^verbatim>\<open>usageCount\<close> of at least \<open>0\<close> and a \<^verbatim>\<open>successRate\<close> in \<open>[0,1]\<close>: a pattern is
  learned with count and rate \<open>0\<close>, an application replaces the rate by the running
  average over the incremented count, and no other method writes a pattern.
\<close>

lemma rates_ok_update:
  assumes "rates_ok s" and "in_unit_range (p_successRate p)" and "0 \<le> p_usageCount p"
    and "patterns s' = AList.update k p (patterns s)"
  shows "rates_ok s'"
proof -
  have "snd ` set (patterns s') \<subseteq> insert p (snd ` set (patterns s))"
    unfolding assms(4) by (rule update_values)
  with assms(1-3) show ?thesis unfolding rates_ok_def by blast
qed

lemma applyPattern_rates_ok:
  fixes s :: "'v orchestrator"
  assumes "rates_ok s"
  shows "rates_ok (snd (applyPattern patternId currentContext now s))"
proof (cases "map_of (patterns s) patternId")
  case None
  with assms show ?thesis by (simp add: applyPattern_missing)
next
  case (Some pattern)
  then have "(patternId, pattern) \<in> set (patterns s)" by (rule map_of_SomeD)
  then have "pattern \<in> snd ` set (patterns s)" by force
  with assms have ok: "in_unit_range (p_successRate pattern)" "0 \<le> p_usageCount pattern"
    unfolding rates_ok_def by blast+
  from applyPattern_rate_in_range [OF Some ok, of currentContext now]
  obtain p' where p': "map_of (patterns (snd (applyPattern patternId currentContext now s)))
                         patternId = Some p'"
    "in_unit_range (p_successRate p')" "0 \<le> p_usageCount p'" by blast
  have "\<exists>q. patterns (snd (applyPattern patternId currentContext now s))
          = AList.update patternId q (patterns s)"
    using Some
    by (simp add: applyPattern_def evaluatePatternMatch_def executePatternActions_def Let_def)
      (rule exI, rule refl)
  then obtain q where q: "patterns (snd (applyPattern patternId currentContext now s))
          = AList.update patternId q (patterns s)" ..
  with p'(1) have "q = p'" by (simp add: update_conv')
  with q p' assms show ?thesis by (auto intro: rates_ok_update)
qed

lemma exec_op_rates_ok:
  assumes "exec_op x s = Some s'" and "rates_ok s"
  shows "rates_ok s'"
proof (cases x)
  case (CreateSession x11 x12 x13 x14 x15 x16 x17)
  with assms show ?thesis
    by (auto simp add: createSession_keeps rates_ok_def)
next
  case (GetSessionContext x21 x22 x23 x24)
  with assms show ?thesis
    by (auto simp add: rates_ok_def dest!: getSessionContext_keeps)
next
  case (CleanupExpiredSessions x31 x32)
  with assms show ?thesis
    by (auto simp add: cleanupExpiredSessions_def cleanup_loop_keeps rates_ok_def)
next
  case (RegisterAgent x41 x42 x43 x44 x45)
  with assms show ?thesis
    by (auto simp add: registerAgent_def Let_def rates_ok_def)
next
  case (ResolveConflict x51 x52 x53 x54 x55 x56 x57)
  with assms show ?thesis
    by (auto simp add: resolveConflict_def Let_def escalateToHuman_def store_conflict_def
          rates_ok_def split: if_splits)
next
  case (LearnPattern x61 x62 x63 x64 x65 x66 x67)
  let ?p = "\<lparr> p_id = ''pattern-'' @ patternType_name x61 @ ''-'' @ x65, p_type = x61,
              p_conditions = x62, p_actions = x63, p_confidence = Num (1 / 2),
              p_usageCount = 0, p_successRate = Num 0, p_lastApplied = x66,
              p_applicableContexts = x64 \<rparr>"
  from LearnPattern assms(1)
  have "patterns s' = AList.update (''pattern-'' @ patternType_name x61 @ ''-'' @ x65) ?p
                        (patterns s)"
    by (auto simp add: learnPattern_def Let_def split: if_splits)
  from rates_ok_update [OF assms(2) _ _ this] show ?thesis by simp
next
  case (ApplyPattern x71 x72 x73)
  with assms applyPattern_rates_ok [OF assms(2), of x71 x72 x73] show ?thesis by auto
qed

lemma run_rates_ok:
  "run ops s = Some s' \<Longrightarrow> rates_ok s \<Longrightarrow> rates_ok s'"
proof (induction ops arbitrary: s)
  case Nil
  then show ?case by simp
next
  case (Cons x xs)
  then show ?case
    by (auto split: option.splits dest: exec_op_rates_ok)
qed

lemma reachable_rates_ok:
  fixes s :: "'v orchestrator"
  assumes "run ops initial = Some s"
  shows "rates_ok s"
  using run_rates_ok [OF assms] by (simp add: rates_ok_def initial_def)

end
